theory Spec2Isabelle
  imports Main "HOL-Library.Word" "HOL-Library.Multiset"
begin

section \<open>Two-pointer algorithms of learn-go: a shallow embedding\<close>

text \<open>
  The three functions of \<^verbatim>\<open>src/algorithms/two_pointers\<close> are embedded as HOL
  functions. Go's \<^verbatim>\<open>int\<close> values are 64-bit two's complement words, the size of
  \<^verbatim>\<open>int\<close> on 64-bit platforms: \<open>+\<close> wraps around, comparisons read the word
  with \<open>sint\<close>. Positions in a slice or
  string (\<^verbatim>\<open>i\<close>, \<^verbatim>\<open>left\<close>, \<^verbatim>\<open>right\<close>, \<^verbatim>\<open>n\<close>) are
  bounded by the length of the slice, so their arithmetic never wraps; they are kept as
  \<open>int\<close> because \<^verbatim>\<open>len(s) - 1\<close> and \<^verbatim>\<open>n - 2\<close> may be negative.
  A run-time panic of the Go program is a value of type \<open>error\<close>.
\<close>

type_synonym goint = "64 word"

datatype error = IndexOutOfRange | NilDereference | InvalidAddress

definition inb :: "'a list \<Rightarrow> int \<Rightarrow> bool" where
  "inb xs i \<longleftrightarrow> 0 \<le> i \<and> i < int (length xs)"

subsection \<open>\<^verbatim>\<open>is_palindromic.go\<close>\<close>

text \<open>
  A Go string is a sequence of bytes and \<^verbatim>\<open>s[k]\<close> reads one byte; an index outside
  the string panics.
\<close>

function isPalindrome_loop :: "string \<Rightarrow> int \<Rightarrow> int \<Rightarrow> error + bool" where
  "isPalindrome_loop s left right =
     (if left < right then
        (if \<not> inb s left \<or> \<not> inb s right then Inl IndexOutOfRange
         else if s ! nat left \<noteq> s ! nat right then Inr False
         else isPalindrome_loop s (left + 1) (right - 1))
      else Inr True)"
  by pat_completeness auto
termination
  by (relation "measure (\<lambda>(s, left, right). nat (right - left))") auto

declare isPalindrome_loop.simps [simp del]

definition isPalindrome :: "string \<Rightarrow> error + bool" where
  "isPalindrome s = isPalindrome_loop s 0 (int (length s) - 1)"

subsection \<open>\<^verbatim>\<open>three_sum.go\<close>\<close>

text \<open>
  \<^verbatim>\<open>sort.Ints(nums)\<close> sorts the slice in place into ascending order of the signed
  values. It is library code; every correct sort returns the same list on integers, here
  \<open>sort_key sint\<close>. The loops only read the sorted slice.

  The two loops that step over a run of equal values after a match:
  \<^verbatim>\<open>for left+1 < right && nums[left] == nums[left+1] { left++ }\<close> and
  \<^verbatim>\<open>for left < right-1 && nums[right] == nums[right-1] { right-- }\<close>.
\<close>

function threeSum_skipLeft :: "goint list \<Rightarrow> int \<Rightarrow> int \<Rightarrow> error + int" where
  "threeSum_skipLeft nums left right =
     (if left + 1 < right then
        (if \<not> inb nums left \<or> \<not> inb nums (left + 1) then Inl IndexOutOfRange
         else if nums ! nat left = nums ! nat (left + 1)
           then threeSum_skipLeft nums (left + 1) right
         else Inr left)
      else Inr left)"
  by pat_completeness auto
termination
  by (relation "measure (\<lambda>(nums, left, right). nat (right - left))") auto

declare threeSum_skipLeft.simps [simp del]

function threeSum_skipRight :: "goint list \<Rightarrow> int \<Rightarrow> int \<Rightarrow> error + int" where
  "threeSum_skipRight nums left right =
     (if left < right - 1 then
        (if \<not> inb nums right \<or> \<not> inb nums (right - 1) then Inl IndexOutOfRange
         else if nums ! nat right = nums ! nat (right - 1)
           then threeSum_skipRight nums left (right - 1)
         else Inr right)
      else Inr right)"
  by pat_completeness auto
termination
  by (relation "measure (\<lambda>(nums, left, right). nat (right - left))") auto

declare threeSum_skipRight.simps [simp del]

lemma threeSum_skipLeft_ge: "threeSum_skipLeft nums left right = Inr l \<Longrightarrow> left \<le> l"
proof (induction nums left right rule: threeSum_skipLeft.induct)
  case (1 nums left right)
  from "1.prems" show ?case
    by (subst (asm) threeSum_skipLeft.simps) (auto split: if_splits dest: "1.IH")
qed

lemma threeSum_skipRight_le: "threeSum_skipRight nums left right = Inr r \<Longrightarrow> r \<le> right"
proof (induction nums left right rule: threeSum_skipRight.induct)
  case (1 nums left right)
  from "1.prems" show ?case
    by (subst (asm) threeSum_skipRight.simps) (auto split: if_splits dest: "1.IH")
qed

text \<open>
  The inner loop \<^verbatim>\<open>for left < right { ... }\<close> for the anchor value \<open>v\<close>.
  \<^verbatim>\<open>total\<close> is a Go \<^verbatim>\<open>int\<close>: the sum wraps around.
\<close>

function threeSum_scan ::
  "goint list \<Rightarrow> goint \<Rightarrow> int \<Rightarrow> int \<Rightarrow> goint list list \<Rightarrow> error + goint list list" where
  "threeSum_scan nums v left right result =
     (if left < right then
        (if \<not> inb nums left \<or> \<not> inb nums right then Inl IndexOutOfRange
         else
           let total = nums ! nat left + nums ! nat right + v in
           if total = 0 then
             (case threeSum_skipLeft nums left right of
                Inl e \<Rightarrow> Inl e
              | Inr l \<Rightarrow>
                 (case threeSum_skipRight nums (l + 1) right of
                    Inl e \<Rightarrow> Inl e
                  | Inr r \<Rightarrow>
                     threeSum_scan nums v (l + 1) (r - 1)
                       (result @ [[v, nums ! nat left, nums ! nat right]])))
           else if total <s 0 then threeSum_scan nums v (left + 1) right result
           else threeSum_scan nums v left (right - 1) result)
      else Inr result)"
  by pat_completeness auto
termination
proof (relation "measure (\<lambda>(nums, v, left, right, result). nat (right - left))", goal_cases)
  case 1
  show ?case by simp
next
  case (2 nums v left right result total l r)
  have "left \<le> l"
    using 2 by (blast dest: threeSum_skipLeft_ge)
  moreover have "r \<le> right"
    using 2 by (blast dest: threeSum_skipRight_le)
  ultimately show ?case
    using 2 by simp
next
  case 3
  then show ?case by simp
next
  case 4
  then show ?case by simp
qed

declare threeSum_scan.simps [simp del]

text \<open>The outer loop \<^verbatim>\<open>for i := 0; i < n-2; i++ { ... }\<close>.\<close>

function threeSum_outer :: "goint list \<Rightarrow> int \<Rightarrow> goint list list \<Rightarrow> error + goint list list" where
  "threeSum_outer nums i result =
     (let n = int (length nums) in
      if i < n - 2 then
        (if \<not> inb nums i then Inl IndexOutOfRange
         else
           let v = nums ! nat i in
           if 0 <s v then Inr result
           else if 0 < i \<and> \<not> inb nums (i - 1) then Inl IndexOutOfRange
           else if 0 < i \<and> nums ! nat i = nums ! nat (i - 1)
             then threeSum_outer nums (i + 1) result
           else
             (case threeSum_scan nums v (i + 1) (n - 1) result of
                Inl e \<Rightarrow> Inl e
              | Inr result' \<Rightarrow> threeSum_outer nums (i + 1) result'))
      else Inr result)"
  by pat_completeness auto
termination
  by (relation "measure (\<lambda>(nums, i, result). nat (int (length nums) - i))") auto

declare threeSum_outer.simps [simp del]

text \<open>
  \<^verbatim>\<open>threeSum\<close> returns the triplets; the caller's slice shares its array with
  \<^verbatim>\<open>nums\<close>, so the model returns the final contents of the slice as well.
\<close>

definition threeSum :: "goint list \<Rightarrow> error + (goint list \<times> goint list list)" where
  "threeSum nums =
     (let nums' = sort_key sint nums in
      case threeSum_outer nums' 0 [] of
        Inl e \<Rightarrow> Inl e
      | Inr result \<Rightarrow> Inr (nums', result))"

subsection \<open>\<^verbatim>\<open>remove_nth_node_from_the_end_of_list.go\<close>\<close>

text \<open>
  The nodes live in a heap, a list of cells; an address is a position in it. A
  \<^verbatim>\<open>*ListNode\<close> is \<open>None\<close> for \<^verbatim>\<open>nil\<close> or \<open>Some a\<close> for the address \<open>a\<close>.
  Reading or writing a field through \<^verbatim>\<open>nil\<close> panics; an address outside the heap
  cannot arise in Go and is reported as \<open>InvalidAddress\<close>. \<^verbatim>\<open>&ListNode{next: head}\<close>
  allocates a fresh cell at the end of the heap. The fields \<^verbatim>\<open>value\<close> and
  \<^verbatim>\<open>next\<close> are called \<open>node_value\<close> and \<open>node_next\<close>, both words being
  keywords of Isabelle. The parameter \<^verbatim>\<open>n\<close> is an \<open>int\<close>: the counter
  \<^verbatim>\<open>i\<close> stays below it and never wraps.
\<close>

record ListNode =
  node_value :: goint
  node_next :: "nat option"

type_synonym heap = "ListNode list"

definition load :: "heap \<Rightarrow> nat option \<Rightarrow> error + ListNode" where
  "load h p =
     (case p of
        None \<Rightarrow> Inl NilDereference
      | Some a \<Rightarrow> if a < length h then Inr (h ! a) else Inl InvalidAddress)"

definition store_next :: "heap \<Rightarrow> nat option \<Rightarrow> nat option \<Rightarrow> error + heap" where
  "store_next h p q =
     (case p of
        None \<Rightarrow> Inl NilDereference
      | Some a \<Rightarrow> if a < length h then Inr (h[a := (h ! a)\<lparr>node_next := q\<rparr>]) else Inl InvalidAddress)"

definition new :: "heap \<Rightarrow> ListNode \<Rightarrow> heap \<times> nat option" where
  "new h node = (h @ [node], Some (length h))"

text \<open>
  The first loop, \<^verbatim>\<open>for i := 0; i < n; i++\<close>, either returns from the function
  (\<^verbatim>\<open>return head\<close>, the list is too short) or ends with \<^verbatim>\<open>rightPtr\<close> moved
  \<open>n\<close> nodes ahead.
\<close>

datatype lead_exit = TooShort | Reached "nat option"

function removeNthFromEnd_lead :: "heap \<Rightarrow> nat option \<Rightarrow> int \<Rightarrow> int \<Rightarrow> error + lead_exit" where
  "removeNthFromEnd_lead h rightPtr i n =
     (if i < n then
        (case load h rightPtr of
           Inl e \<Rightarrow> Inl e
         | Inr r \<Rightarrow>
            if node_next r = None then Inr TooShort
            else removeNthFromEnd_lead h (node_next r) (i + 1) n)
      else Inr (Reached rightPtr))"
  by pat_completeness auto
termination
  by (relation "measure (\<lambda>(h, rightPtr, i, n). nat (n - i))") auto

declare removeNthFromEnd_lead.simps [simp del]

text \<open>
  The second loop, \<^verbatim>\<open>for rightPtr.next != nil\<close>, has no bound of its own: on a cyclic
  list it runs forever. It is a partial function, \<open>None\<close> standing for a run that does
  not end.
\<close>

partial_function (option) removeNthFromEnd_walk ::
  "heap \<Rightarrow> nat option \<Rightarrow> nat option \<Rightarrow> (error + nat option) option" where
  "removeNthFromEnd_walk h rightPtr leftPtr =
     (case load h rightPtr of
        Inl e \<Rightarrow> Some (Inl e)
      | Inr r \<Rightarrow>
         if node_next r \<noteq> None then
           (case load h leftPtr of
              Inl e \<Rightarrow> Some (Inl e)
            | Inr l \<Rightarrow> removeNthFromEnd_walk h (node_next r) (node_next l))
         else Some (Inr leftPtr))"

declare removeNthFromEnd_walk.simps [code]

text \<open>
  \<^verbatim>\<open>removeNthFromEnd\<close> returns the heap after the call together with the new head.
\<close>

definition removeNthFromEnd ::
  "heap \<Rightarrow> nat option \<Rightarrow> int \<Rightarrow> (error + heap \<times> nat option) option" where
  "removeNthFromEnd h head n =
     (if head = None \<or> n \<le> 0 then Some (Inr (h, head))
      else
        let (h1, currentPtr) = new h \<lparr>node_value = 0, node_next = head\<rparr> in
        case removeNthFromEnd_lead h1 currentPtr 0 n of
          Inl e \<Rightarrow> Some (Inl e)
        | Inr TooShort \<Rightarrow> Some (Inr (h1, head))
        | Inr (Reached rightPtr) \<Rightarrow>
           (case removeNthFromEnd_walk h1 rightPtr currentPtr of
              None \<Rightarrow> None
            | Some (Inl e) \<Rightarrow> Some (Inl e)
            | Some (Inr leftPtr) \<Rightarrow>
               (case load h1 leftPtr of
                  Inl e \<Rightarrow> Some (Inl e)
                | Inr l \<Rightarrow>
                   (case load h1 (node_next l) of
                      Inl e \<Rightarrow> Some (Inl e)
                    | Inr victim \<Rightarrow>
                       (case store_next h1 leftPtr (node_next victim) of
                          Inl e \<Rightarrow> Some (Inl e)
                        | Inr h2 \<Rightarrow>
                           (case load h2 currentPtr of
                              Inl e \<Rightarrow> Some (Inl e)
                            | Inr c \<Rightarrow> Some (Inr (h2, node_next c))))))))"

subsection \<open>Notions used to state the properties of \<^verbatim>\<open>isPalindrome\<close>\<close>

text \<open>
  A character is a Unicode code point, a natural number. A Go string holds the UTF-8
  encoding of its characters: \<open>utf8\<close> gives the one to four bytes of a code point, and
  \<open>go_string\<close> the bytes of a sequence of characters. A character below 128 (ASCII) is
  a single byte.
\<close>

definition utf8 :: "nat \<Rightarrow> string" where
  "utf8 c =
     (if c < 128 then [char_of c]
      else if c < 2048 then [char_of (192 + c div 64), char_of (128 + c mod 64)]
      else if c < 65536 then
        [char_of (224 + c div 4096), char_of (128 + c div 64 mod 64), char_of (128 + c mod 64)]
      else
        [char_of (240 + c div 262144), char_of (128 + c div 4096 mod 64),
         char_of (128 + c div 64 mod 64), char_of (128 + c mod 64)])"

definition go_string :: "nat list \<Rightarrow> string" where
  "go_string cs = concat (map utf8 cs)"

subsection \<open>Notions used to state the properties of \<^verbatim>\<open>threeSum\<close>\<close>

text \<open>
  \<open>triplet_of nums t\<close>: \<open>t\<close> holds the values at three positions \<open>i < j < k\<close> of
  \<open>nums\<close>, and Go's \<^verbatim>\<open>==\<close> finds their (wrapped) sum equal to zero.
  \<open>tless\<close> orders triplets by their first two values, read as signed integers.
\<close>

definition triplet_of :: "goint list \<Rightarrow> goint list \<Rightarrow> bool" where
  "triplet_of nums t \<longleftrightarrow>
     (\<exists>i j k. i < j \<and> j < k \<and> k < length nums
        \<and> t = [nums ! i, nums ! j, nums ! k] \<and> nums ! i + nums ! j + nums ! k = 0)"

definition tless :: "goint list \<Rightarrow> goint list \<Rightarrow> bool" where
  "tless s t \<longleftrightarrow> sint (s ! 0) < sint (t ! 0) \<or> (s ! 0 = t ! 0 \<and> sint (s ! 1) < sint (t ! 1))"


subsection \<open>Notions used to state the properties of \<^verbatim>\<open>removeNthFromEnd\<close>\<close>

text \<open>
  \<open>chain h p as\<close>: following \<^verbatim>\<open>next\<close> from \<open>p\<close> in the heap \<open>h\<close> visits the
  addresses \<open>as\<close> in this order and then reaches \<^verbatim>\<open>nil\<close>; the list at \<open>p\<close> is
  finite and acyclic. \<open>list_values\<close> reads the values of the nodes. \<open>heap5\<close> is the
  list \<^verbatim>\<open>1 -> 2 -> 3 -> 4 -> 5\<close> that \<^verbatim>\<open>main\<close> builds, its head at address 0.
\<close>

fun chain :: "heap \<Rightarrow> nat option \<Rightarrow> nat list \<Rightarrow> bool" where
  "chain h p [] \<longleftrightarrow> p = None"
| "chain h p (a # as) \<longleftrightarrow> p = Some a \<and> a < length h \<and> chain h (node_next (h ! a)) as"

definition list_values :: "heap \<Rightarrow> nat list \<Rightarrow> goint list" where
  "list_values h as = map (\<lambda>a. node_value (h ! a)) as"

definition heap5 :: heap where
  "heap5 = [\<lparr>node_value = 1, node_next = Some 1\<rparr>, \<lparr>node_value = 2, node_next = Some 2\<rparr>,
            \<lparr>node_value = 3, node_next = Some 3\<rparr>, \<lparr>node_value = 4, node_next = Some 4\<rparr>,
            \<lparr>node_value = 5, node_next = None\<rparr>]"

text \<open>
  \<open>cycle1\<close> is a heap with a cyclic list: the node at address 0 is its own successor;
  the cell at address 1 is the sentinel that \<^verbatim>\<open>removeNthFromEnd\<close> puts in front of it.
\<close>

definition cycle1 :: heap where
  "cycle1 = [\<lparr>node_value = 1, node_next = Some 0\<rparr>, \<lparr>node_value = 0, node_next = Some 0\<rparr>]"

text \<open>
  The list operation that the specification describes: drop the \<open>n\<close>-th element counted
  from the end (1-indexed) when \<open>1 \<le> n \<le> length\<close>, and nothing otherwise.
\<close>

definition remove_nth_from_end :: "'a list \<Rightarrow> int \<Rightarrow> 'a list" where
  "remove_nth_from_end xs n =
     (if 1 \<le> n \<and> n \<le> int (length xs)
      then take (length xs - nat n) xs @ drop (Suc (length xs - nat n)) xs
      else xs)"

section \<open>Palindrome check\<close>

lemma isPalindrome_loop_spec:
  "0 \<le> l \<Longrightarrow> r = int (length s) - 1 - l \<Longrightarrow>
   isPalindrome_loop s l r = Inr (\<forall>k. l \<le> k \<and> k \<le> r \<longrightarrow> s ! nat k = s ! nat (int (length s) - 1 - k))"
proof (induction s l r rule: isPalindrome_loop.induct)
  case (1 s left right)
  show ?case
  proof (cases "left < right")
    case False
    with "1.prems" have "\<And>k. left \<le> k \<and> k \<le> right \<Longrightarrow> int (length s) - 1 - k = k" by linarith
    with False show ?thesis by (subst isPalindrome_loop.simps) simp
  next
    case True
    with "1.prems" have ib: "inb s left" "inb s right" by (auto simp: inb_def)
    show ?thesis
    proof (cases "s ! nat left = s ! nat right")
      case neq: False
      with "1.prems" True ib show ?thesis
        apply (subst isPalindrome_loop.simps) apply simp
        apply (rule exI[of _ left]) apply simp done
    next
      case eq: True
      have IH: "isPalindrome_loop s (left + 1) (right - 1) =
         Inr (\<forall>k. left + 1 \<le> k \<and> k \<le> right - 1 \<longrightarrow> s ! nat k = s ! nat (int (length s) - 1 - k))"
        using "1.IH"[OF True _ _ ] ib eq "1.prems" by simp
      have "(\<forall>k. left \<le> k \<and> k \<le> right \<longrightarrow> s ! nat k = s ! nat (int (length s) - 1 - k))
        = (\<forall>k. left + 1 \<le> k \<and> k \<le> right - 1 \<longrightarrow> s ! nat k = s ! nat (int (length s) - 1 - k))"
        (is "?A = ?B")
      proof
        assume ?A then show ?B by auto
      next
        assume b: ?B
        show ?A
        proof (intro allI impI)
          fix k assume k: "left \<le> k \<and> k \<le> right"
          consider "k = left" | "k = right" | "left + 1 \<le> k \<and> k \<le> right - 1" using k by linarith
          then show "s ! nat k = s ! nat (int (length s) - 1 - k)"
          proof cases
            case 1
            then have "int (length s) - 1 - k = right" using "1.prems" by linarith
            with 1 eq show ?thesis by simp
          next
            case 2
            then have "int (length s) - 1 - k = left" using "1.prems" by linarith
            with 2 eq show ?thesis by simp
          next
            case 3 then show ?thesis using b by blast
          qed
        qed
      qed
      with IH True ib eq show ?thesis by (subst isPalindrome_loop.simps) simp
    qed
  qed
qed

lemma palindrome_iff_nth: "(s = rev s) = (\<forall>k. 0 \<le> k \<and> k \<le> int (length s) - 1 \<longrightarrow> s ! nat k = s ! nat (int (length s) - 1 - k))"
proof
  assume a: "s = rev s"
  show "\<forall>k. 0 \<le> k \<and> k \<le> int (length s) - 1 \<longrightarrow> s ! nat k = s ! nat (int (length s) - 1 - k)"
  proof (intro allI impI)
    fix k assume k: "0 \<le> k \<and> k \<le> int (length s) - 1"
    then have "nat k < length s" by linarith
    then have "rev s ! nat k = s ! (length s - Suc (nat k))" by (rule rev_nth)
    moreover have "nat (int (length s) - 1 - k) = length s - Suc (nat k)" using k by linarith
    ultimately show "s ! nat k = s ! nat (int (length s) - 1 - k)" using a by simp
  qed
next
  assume a: "\<forall>k. 0 \<le> k \<and> k \<le> int (length s) - 1 \<longrightarrow> s ! nat k = s ! nat (int (length s) - 1 - k)"
  show "s = rev s"
  proof (rule nth_equalityI)
    show "length s = length (rev s)" by simp
  next
    fix i assume i: "i < length s"
    then have "rev s ! i = s ! (length s - Suc i)" by (rule rev_nth)
    moreover have "nat (int (length s) - 1 - int i) = length s - Suc i" using i by linarith
    moreover have "s ! nat (int i) = s ! nat (int (length s) - 1 - int i)" using a i by (intro a[rule_format]) linarith
    ultimately show "s ! i = rev s ! i" by simp
  qed
qed

lemma go_string_ascii: "\<forall>c\<in>set cs. c < 128 \<Longrightarrow> go_string cs = map char_of cs"
  by (induction cs) (simp_all add: go_string_def utf8_def)

lemma char_of_inj_ascii: "inj_on (char_of :: nat \<Rightarrow> char) {..<128}"
proof (rule inj_onI)
  fix x y :: nat assume a: "x \<in> {..<128}" "y \<in> {..<128}" "(char_of x :: char) = char_of y"
  from a(3) have "(of_char (char_of x :: char) :: nat) = of_char (char_of y :: char)" by simp
  then have "x mod 256 = y mod 256" by (simp add: of_char_of)
  with a(1,2) show "x = y" by simp
qed

lemma ascii_palindrome_iff:
  assumes "\<forall>c\<in>set cs. c < 128"
  shows "(go_string cs = rev (go_string cs)) = (cs = rev cs)"
proof -
  have "(map char_of cs = (map char_of (rev cs) :: string)) = (cs = rev cs)"
    using assms by (intro inj_on_map_eq_map[OF inj_on_subset[OF char_of_inj_ascii]]) auto
  then show ?thesis using assms by (simp add: go_string_ascii rev_map)
qed

text \<open>
  Claim C5, as the code has it. The claim speaks of every character sequence. The code
  indexes the bytes of the string, so what holds is: for every byte sequence \<open>s\<close>,
  \<^verbatim>\<open>isPalindrome\<close> returns (without a panic) true exactly when \<open>s\<close> equals its own
  reversal byte by byte, with no case folding (\<^verbatim>\<open>"Aa"\<close> is no palindrome); hence for
  every sequence of single-byte (ASCII) characters it returns true exactly when the
  character sequence equals its reversal. The empty string gives true, and the examples of
  the specification hold: \<^verbatim>\<open>"racecar"\<close> gives true, \<^verbatim>\<open>"abab"\<close> gives false,
  \<^verbatim>\<open>""\<close> gives true.
\<close>

theorem isPalindrome_correct:
  "isPalindrome s = Inr (s = rev s)
   \<and> ((\<forall>c\<in>set cs. c < 128) \<longrightarrow> isPalindrome (go_string cs) = Inr (cs = rev cs))
   \<and> isPalindrome [] = Inr True
   \<and> isPalindrome ''racecar'' = Inr True
   \<and> isPalindrome ''abab'' = Inr False
   \<and> isPalindrome ''Aa'' = Inr False"
proof -
  have general: "isPalindrome t = Inr (t = rev t)" for t
    unfolding isPalindrome_def
    using isPalindrome_loop_spec[of 0 "int (length t) - 1" t] palindrome_iff_nth[of t] by simp
  have "isPalindrome (go_string cs) = Inr (cs = rev cs)" if "\<forall>c\<in>set cs. c < 128"
    using that by (simp add: general ascii_palindrome_iff)
  then show ?thesis
    by (simp add: general)
qed

text \<open>The theorem for C5 at the characters of \<^verbatim>\<open>"racecar"\<close> and of \<^verbatim>\<open>"abab"\<close>.\<close>

theorem isPalindrome_correct_witness:
  "list_all (\<lambda>c. c < 128) [114, 97, 99, 101, 99, 97, 114 :: nat]
   \<and> go_string [114, 97, 99, 101, 99, 97, 114] = ''racecar''
   \<and> isPalindrome (go_string [114, 97, 99, 101, 99, 97, 114]) = Inr True
   \<and> go_string [97, 98, 97, 98] = ''abab''
   \<and> isPalindrome (go_string [97, 98, 97, 98]) = Inr False"
proof -
  have g: "go_string [114, 97, 99, 101, 99, 97, 114] = ''racecar''" "go_string [97, 98, 97, 98] = ''abab''"
    by code_simp+
  have a: "\<forall>c\<in>set [114, 97, 99, 101, 99, 97, 114 :: nat]. c < 128" "\<forall>c\<in>set [97, 98, 97, 98 :: nat]. c < 128"
    by simp_all
  from isPalindrome_correct[of "[]" "[114, 97, 99, 101, 99, 97, 114]", THEN conjunct2, THEN conjunct1] a(1)
  have "isPalindrome (go_string [114, 97, 99, 101, 99, 97, 114])
      = Inr ([114, 97, 99, 101, 99, 97, 114 :: nat] = rev [114, 97, 99, 101, 99, 97, 114])"
    by (rule mp)
  then have 1: "isPalindrome (go_string [114, 97, 99, 101, 99, 97, 114]) = Inr True"
    by simp
  from isPalindrome_correct[of "[]" "[97, 98, 97, 98]", THEN conjunct2, THEN conjunct1] a(2)
  have "isPalindrome (go_string [97, 98, 97, 98]) = Inr ([97, 98, 97, 98 :: nat] = rev [97, 98, 97, 98])"
    by (rule mp)
  then have 2: "isPalindrome (go_string [97, 98, 97, 98]) = Inr False"
    by simp
  have "list_all (\<lambda>c. c < 128) [114, 97, 99, 101, 99, 97, 114 :: nat]"
    by simp
  with g 1 2 show ?thesis by blast
qed

text \<open>
  Claim C5 as stated fails on a character of more than one byte: the string of the single
  character U+00E9 equals its reversal as a character sequence, its bytes are
  \<^verbatim>\<open>C3 A9\<close>, and \<^verbatim>\<open>isPalindrome\<close> returns false.
\<close>

theorem isPalindrome_utf8_counterexample:
  "[233 :: nat] = rev [233] \<and> go_string [233] = [CHR 0xC3, CHR 0xA9]
   \<and> isPalindrome (go_string [233]) = Inr False"
proof -
  have g: "go_string [233] = [CHR 0xC3, CHR 0xA9]"
    by code_simp
  have "isPalindrome [CHR 0xC3, CHR 0xA9] = Inr False"
    by (simp add: isPalindrome_def isPalindrome_loop.simps inb_def)
  with g show ?thesis by simp
qed

section \<open>Zero-sum triplets\<close>

subsection \<open>The loops keep the result sorted and never read out of range\<close>

lemma sorted_nth_int:
  "sorted (map sint nums) \<Longrightarrow> 0 \<le> i \<Longrightarrow> i \<le> j \<Longrightarrow> j < int (length nums) \<Longrightarrow>
   sint (nums ! nat i) \<le> sint (nums ! nat j)"
proof -
  assume a: "sorted (map sint nums)" "0 \<le> i" "i \<le> j" "j < int (length nums)"
  then have "nat i \<le> nat j" "nat j < length (map sint nums)" by auto
  with a(1) have "map sint nums ! nat i \<le> map sint nums ! nat j" by (rule sorted_nth_mono)
  with a show ?thesis by simp
qed

lemma sorted_nth_int_less:
  assumes "sorted (map sint nums)" "0 \<le> i" "i \<le> j" "j < int (length nums)"
    and "nums ! nat i \<noteq> nums ! nat j"
  shows "sint (nums ! nat i) < sint (nums ! nat j)"
proof -
  have "sint (nums ! nat i) \<le> sint (nums ! nat j)" using assms by (intro sorted_nth_int)
  moreover have "sint (nums ! nat i) \<noteq> sint (nums ! nat j)" using assms(5) by (auto dest: signed_word_eqI)
  ultimately show ?thesis by simp
qed

lemma threeSum_skipLeft_spec:
  "0 \<le> left \<Longrightarrow> right \<le> int (length nums) \<Longrightarrow>
   \<exists>l. threeSum_skipLeft nums left right = Inr l \<and> left \<le> l
      \<and> nums ! nat l = nums ! nat left
      \<and> (l + 1 < right \<longrightarrow> nums ! nat (l + 1) \<noteq> nums ! nat l)"
proof (induction nums left right rule: threeSum_skipLeft.induct)
  case (1 nums left right)
  show ?case
  proof (cases "left + 1 < right")
    case False
    then show ?thesis by (subst threeSum_skipLeft.simps) simp
  next
    case True
    with "1.prems" have ib: "inb nums left" "inb nums (left + 1)" by (auto simp: inb_def)
    show ?thesis
    proof (cases "nums ! nat left = nums ! nat (left + 1)")
      case eq: True
      from "1.IH"[OF True _ eq] ib "1.prems"
      obtain l where l: "threeSum_skipLeft nums (left + 1) right = Inr l" "left + 1 \<le> l"
        "nums ! nat l = nums ! nat (left + 1)" "l + 1 < right \<longrightarrow> nums ! nat (l + 1) \<noteq> nums ! nat l"
        by auto
      have "threeSum_skipLeft nums left right = Inr l"
        using True ib eq l(1) by (subst threeSum_skipLeft.simps) simp
      with l eq show ?thesis by auto
    next
      case neq: False
      have "threeSum_skipLeft nums left right = Inr left"
        using True ib neq by (subst threeSum_skipLeft.simps) simp
      with neq show ?thesis by auto
    qed
  qed
qed

lemma threeSum_skipRight_spec:
  "0 \<le> left \<Longrightarrow> right < int (length nums) \<Longrightarrow>
   \<exists>r. threeSum_skipRight nums left right = Inr r \<and> r \<le> right"
proof (induction nums left right rule: threeSum_skipRight.induct)
  case (1 nums left right)
  show ?case
  proof (cases "left < right - 1")
    case False
    then show ?thesis by (subst threeSum_skipRight.simps) simp
  next
    case True
    with "1.prems" have ib: "inb nums right" "inb nums (right - 1)" by (auto simp: inb_def)
    show ?thesis
    proof (cases "nums ! nat right = nums ! nat (right - 1)")
      case eq: True
      from "1.IH"[OF True _ eq] ib "1.prems"
      obtain r where r: "threeSum_skipRight nums left (right - 1) = Inr r" "r \<le> right - 1"
        by auto
      have "threeSum_skipRight nums left right = Inr r"
        using True ib eq r(1) by (subst threeSum_skipRight.simps) simp
      with r show ?thesis by auto
    next
      case neq: False
      have "threeSum_skipRight nums left right = Inr right"
        using True ib neq by (subst threeSum_skipRight.simps) simp
      then show ?thesis by auto
    qed
  qed
qed

lemma tless_snoc:
  assumes "\<forall>t\<in>set result. sint (t ! 0) \<le> sint v"
    and "\<forall>t\<in>set result. sint (t ! 0) < sint v \<or> sint (t ! 1) < sint a"
    and "t \<in> set result"
  shows "tless t [v, a, b]"
proof -
  from assms have "sint (t ! 0) < sint v \<or> (sint (t ! 0) = sint v \<and> sint (t ! 1) < sint a)"
    by fastforce
  then show ?thesis by (auto simp: tless_def dest: signed_word_eqI)
qed

lemma triplet_ofI:
  assumes "0 \<le> i" "i < left" "left < right" "right < int (length nums)"
    and "nums ! nat left + nums ! nat right + nums ! nat i = 0"
  shows "triplet_of nums [nums ! nat i, nums ! nat left, nums ! nat right]"
  unfolding triplet_of_def
proof (intro exI conjI)
  show "nat i < nat left" "nat left < nat right" "nat right < length nums" using assms by linarith+
  show "[nums ! nat i, nums ! nat left, nums ! nat right] = [nums ! nat i, nums ! nat left, nums ! nat right]" by simp
  show "nums ! nat i + nums ! nat left + nums ! nat right = 0" using assms(5) by (simp add: add.commute add.left_commute)
qed

lemma threeSum_scan_spec:
  "sorted (map sint nums) \<Longrightarrow> 0 \<le> i \<Longrightarrow> i < left \<Longrightarrow> right < int (length nums) \<Longrightarrow> v = nums ! nat i \<Longrightarrow>
    \<forall>t\<in>set result. triplet_of nums t \<Longrightarrow>
    sorted_wrt tless result \<Longrightarrow>
    \<forall>t\<in>set result. sint (t ! 0) \<le> sint v \<Longrightarrow>
    (left < right \<longrightarrow> (\<forall>t\<in>set result. sint (t ! 0) < sint v \<or> sint (t ! 1) < sint (nums ! nat left))) \<Longrightarrow>
    \<exists>res. threeSum_scan nums v left right result = Inr res
       \<and> (\<forall>t\<in>set res. triplet_of nums t) \<and> sorted_wrt tless res
       \<and> (\<forall>t\<in>set res. sint (t ! 0) \<le> sint v)"
proof (induction nums v left right result rule: threeSum_scan.induct)
  case (1 nums v left right result)
  note srt = "1.prems"(1)
  show ?case
  proof (cases "left < right")
    case False
    then have "threeSum_scan nums v left right result = Inr result"
      by (subst threeSum_scan.simps) simp
    with "1.prems" show ?thesis by simp
  next
    case lr: True
    with "1.prems" have ib: "inb nums left" "inb nums right" by (auto simp: inb_def)
    define total where "total = nums ! nat left + nums ! nat right + v"
    show ?thesis
    proof (cases "total = 0")
      case z: True
      obtain l where l: "threeSum_skipLeft nums left right = Inr l" "left \<le> l"
        "nums ! nat l = nums ! nat left" "l + 1 < right \<longrightarrow> nums ! nat (l + 1) \<noteq> nums ! nat l"
        using threeSum_skipLeft_spec[of left right nums] "1.prems" by auto
      obtain r where r: "threeSum_skipRight nums (l + 1) right = Inr r" "r \<le> right"
        using threeSum_skipRight_spec[of "l + 1" right nums] "1.prems" l(2) by auto
      let ?new = "[v, nums ! nat left, nums ! nat right]"
      have unfold: "threeSum_scan nums v left right result =
          threeSum_scan nums v (l + 1) (r - 1) (result @ [?new])"
        using lr ib z l(1) r(1) by (subst threeSum_scan.simps) (simp add: total_def)
      have p1: "\<forall>t\<in>set (result @ [?new]). triplet_of nums t"
        using "1.prems" lr z triplet_ofI[of i left right nums] by (auto simp: total_def)
      have p2: "sorted_wrt tless (result @ [?new])"
        using "1.prems" lr tless_snoc[of result v "nums ! nat left" _ "nums ! nat right"]
        by (simp add: sorted_wrt_append)
      have p3: "\<forall>t\<in>set (result @ [?new]). sint (t ! 0) \<le> sint v"
        using "1.prems" by simp
      have p4: "l + 1 < r - 1 \<longrightarrow> (\<forall>t\<in>set (result @ [?new]).
                  sint (t ! 0) < sint v \<or> sint (t ! 1) < sint (nums ! nat (l + 1)))"
      proof (intro impI)
        assume a: "l + 1 < r - 1"
        with r(2) have lt: "l + 1 < right" by linarith
        with l(4) have ne: "nums ! nat l \<noteq> nums ! nat (l + 1)" by auto
        have "sint (nums ! nat l) < sint (nums ! nat (l + 1))"
          using srt "1.prems" l(2) lt ne by (intro sorted_nth_int_less) auto
        with l(3) have step: "sint (nums ! nat left) < sint (nums ! nat (l + 1))" by simp
        show "\<forall>t\<in>set (result @ [?new]).
                  sint (t ! 0) < sint v \<or> sint (t ! 1) < sint (nums ! nat (l + 1))"
          using "1.prems"(9) lr step by fastforce
      qed
      have "\<exists>res. threeSum_scan nums v (l + 1) (r - 1) (result @ [?new]) = Inr res
         \<and> (\<forall>t\<in>set res. triplet_of nums t) \<and> sorted_wrt tless res
         \<and> (\<forall>t\<in>set res. sint (t ! 0) \<le> sint v)"
      proof (rule "1.IH"(1)[OF lr _ total_def z l(1) r(1)])
        show "\<not> (\<not> inb nums left \<or> \<not> inb nums right)" using ib by simp
        show "sorted (map sint nums)" by (rule srt)
        show "0 \<le> i" "i < l + 1" "r - 1 < int (length nums)" "v = nums ! nat i"
          using "1.prems" l(2) r(2) by auto
      qed (use p1 p2 p3 p4 in auto)
      with unfold show ?thesis by simp
    next
      case nz: False
      show ?thesis
      proof (cases "total <s 0")
        case neg: True
        have unfold: "threeSum_scan nums v left right result = threeSum_scan nums v (left + 1) right result"
          using lr ib nz neg by (subst threeSum_scan.simps) (simp add: total_def)
        have p4: "left + 1 < right \<longrightarrow> (\<forall>t\<in>set result.
                  sint (t ! 0) < sint v \<or> sint (t ! 1) < sint (nums ! nat (left + 1)))"
        proof (intro impI)
          assume a: "left + 1 < right"
          have "sint (nums ! nat left) \<le> sint (nums ! nat (left + 1))"
            using srt "1.prems" a by (intro sorted_nth_int) auto
          then show "\<forall>t\<in>set result.
                  sint (t ! 0) < sint v \<or> sint (t ! 1) < sint (nums ! nat (left + 1))"
            using "1.prems"(9) lr by fastforce
        qed
        have "\<exists>res. threeSum_scan nums v (left + 1) right result = Inr res
         \<and> (\<forall>t\<in>set res. triplet_of nums t) \<and> sorted_wrt tless res
         \<and> (\<forall>t\<in>set res. sint (t ! 0) \<le> sint v)"
        proof (rule "1.IH"(2)[OF lr _ total_def nz neg])
          show "\<not> (\<not> inb nums left \<or> \<not> inb nums right)" using ib by simp
          show "sorted (map sint nums)" by (rule srt)
          show "0 \<le> i" "i < left + 1" "right < int (length nums)" "v = nums ! nat i"
            using "1.prems" by auto
        qed (use "1.prems" p4 in auto)
        with unfold show ?thesis by simp
      next
        case pos: False
        have unfold: "threeSum_scan nums v left right result = threeSum_scan nums v left (right - 1) result"
          using lr ib nz pos by (subst threeSum_scan.simps) (simp add: total_def)
        have "\<exists>res. threeSum_scan nums v left (right - 1) result = Inr res
         \<and> (\<forall>t\<in>set res. triplet_of nums t) \<and> sorted_wrt tless res
         \<and> (\<forall>t\<in>set res. sint (t ! 0) \<le> sint v)"
        proof (rule "1.IH"(3)[OF lr _ total_def nz pos])
          show "\<not> (\<not> inb nums left \<or> \<not> inb nums right)" using ib by simp
          show "sorted (map sint nums)" by (rule srt)
          show "0 \<le> i" "i < left" "right - 1 < int (length nums)" "v = nums ! nat i"
            using "1.prems" by auto
        qed (use "1.prems" lr in auto)
        with unfold show ?thesis by simp
      qed
    qed
  qed
qed

lemma threeSum_outer_spec:
  "sorted (map sint nums) \<Longrightarrow> 0 \<le> i \<Longrightarrow>
    \<forall>t\<in>set result. triplet_of nums t \<Longrightarrow>
    sorted_wrt tless result \<Longrightarrow>
    \<forall>t\<in>set result. 0 < i \<and> sint (t ! 0) \<le> sint (nums ! nat (i - 1)) \<Longrightarrow>
    \<exists>res. threeSum_outer nums i result = Inr res
       \<and> (\<forall>t\<in>set res. triplet_of nums t) \<and> sorted_wrt tless res"
proof (induction nums i result rule: threeSum_outer.induct)
  case (1 nums i result)
  note srt = "1.prems"(1)
  define n where "n = int (length nums)"
  show ?case
  proof (cases "i < n - 2")
    case False
    then have "threeSum_outer nums i result = Inr result"
      by (subst threeSum_outer.simps) (simp add: n_def)
    with "1.prems" show ?thesis by simp
  next
    case lt: True
    with "1.prems" have ib: "inb nums i" by (auto simp: inb_def n_def)
    define v where "v = nums ! nat i"
    show ?thesis
    proof (cases "0 <s v")
      case True
      then have "threeSum_outer nums i result = Inr result"
        using lt ib by (subst threeSum_outer.simps) (simp add: n_def v_def Let_def)
      with "1.prems" show ?thesis by simp
    next
      case nonpos: False
      have ib1: "\<not> (0 < i \<and> \<not> inb nums (i - 1))" using lt by (auto simp: inb_def n_def)
      show ?thesis
      proof (cases "0 < i \<and> nums ! nat i = nums ! nat (i - 1)")
        case dup: True
        have unfold: "threeSum_outer nums i result = threeSum_outer nums (i + 1) result"
          using lt ib nonpos ib1 dup by (subst threeSum_outer.simps) (simp add: n_def v_def Let_def)
        have "\<exists>res. threeSum_outer nums (i + 1) result = Inr res
           \<and> (\<forall>t\<in>set res. triplet_of nums t) \<and> sorted_wrt tless res"
        proof (rule "1.IH"(1)[OF n_def lt _ v_def nonpos ib1 dup])
          show "\<not> \<not> inb nums i" using ib by simp
          show "sorted (map sint nums)" by (rule srt)
          show "0 \<le> i + 1" using "1.prems" by simp
          show "\<forall>t\<in>set result. 0 < i + 1 \<and> sint (t ! 0) \<le> sint (nums ! nat (i + 1 - 1))"
            using "1.prems"(5) dup by auto
        qed (use "1.prems" in auto)
        with unfold show ?thesis by simp
      next
        case nodup: False
        have p3: "\<forall>t\<in>set result. sint (t ! 0) \<le> sint v"
        proof
          fix t assume t: "t \<in> set result"
          with "1.prems"(5) have a: "0 < i" "sint (t ! 0) \<le> sint (nums ! nat (i - 1))" by auto
          have "sint (nums ! nat (i - 1)) \<le> sint (nums ! nat i)"
            using srt a(1) lt by (intro sorted_nth_int) (auto simp: n_def)
          with a show "sint (t ! 0) \<le> sint v" by (simp add: v_def)
        qed
        have p4: "\<forall>t\<in>set result. sint (t ! 0) < sint v"
        proof
          fix t assume t: "t \<in> set result"
          with "1.prems"(5) have a: "0 < i" "sint (t ! 0) \<le> sint (nums ! nat (i - 1))" by auto
          with nodup have "nums ! nat (i - 1) \<noteq> nums ! nat i" by auto
          then have "sint (nums ! nat (i - 1)) < sint (nums ! nat i)"
            using srt a(1) lt by (intro sorted_nth_int_less) (auto simp: n_def)
          with a show "sint (t ! 0) < sint v" by (simp add: v_def)
        qed
        obtain res' where res': "threeSum_scan nums v (i + 1) (n - 1) result = Inr res'"
          "\<forall>t\<in>set res'. triplet_of nums t" "sorted_wrt tless res'"
          "\<forall>t\<in>set res'. sint (t ! 0) \<le> sint v"
          using threeSum_scan_spec[of nums i "i + 1" "n - 1" v result] srt "1.prems" p3 p4
          by (auto simp: n_def v_def)
        have unfold: "threeSum_outer nums i result = threeSum_outer nums (i + 1) res'"
          using lt ib nonpos ib1 nodup res'(1) by (subst threeSum_outer.simps) (auto simp add: n_def v_def Let_def)
        have "\<exists>res. threeSum_outer nums (i + 1) res' = Inr res
           \<and> (\<forall>t\<in>set res. triplet_of nums t) \<and> sorted_wrt tless res"
        proof (rule "1.IH"(2)[OF n_def lt _ v_def nonpos ib1 nodup res'(1)])
          show "\<not> \<not> inb nums i" using ib by simp
          show "sorted (map sint nums)" by (rule srt)
          show "0 \<le> i + 1" using "1.prems" by simp
          show "\<forall>t\<in>set res'. 0 < i + 1 \<and> sint (t ! 0) \<le> sint (nums ! nat (i + 1 - 1))"
            using res'(4) "1.prems"(2) by (auto simp: v_def)
        qed (use res' in auto)
        with unfold show ?thesis by simp
      qed
    qed
  qed
qed

subsection \<open>Properties of the returned triplets\<close>

lemma add_mset_nth_subset:
  assumes "i < length xs" "M \<subseteq># mset (drop (Suc i) xs)"
  shows "add_mset (xs ! i) M \<subseteq># mset xs"
proof -
  have "xs = take i xs @ xs ! i # drop (Suc i) xs"
    using assms(1) by (rule id_take_nth_drop)
  then have "mset xs = mset (take i xs) + add_mset (xs ! i) (mset (drop (Suc i) xs))"
    by (metis mset.simps(2) mset_append)
  moreover have "add_mset (xs ! i) M \<subseteq># add_mset (xs ! i) (mset (drop (Suc i) xs))"
    using assms(2) by simp
  ultimately show ?thesis
    by (simp add: subset_mset.add_increasing)
qed

lemma nth_triple_mset:
  assumes "i < j" "j < k" "k < length xs"
  shows "{#xs ! i, xs ! j, xs ! k#} \<subseteq># mset xs"
proof -
  let ?ys = "drop (Suc i) xs"
  let ?zs = "drop (Suc j) xs"
  have k: "?zs ! (k - Suc j) = xs ! k" "k - Suc j < length ?zs"
    using assms by auto
  then have "xs ! k \<in> set ?zs"
    by (metis nth_mem)
  then have 1: "{#xs ! k#} \<subseteq># mset ?zs"
    by simp
  have j: "?ys ! (j - Suc i) = xs ! j" "j - Suc i < length ?ys"
    "drop (Suc (j - Suc i)) ?ys = ?zs"
    using assms by auto
  have 2: "add_mset (xs ! j) {#xs ! k#} \<subseteq># mset ?ys"
    using add_mset_nth_subset[of "j - Suc i" ?ys "{#xs ! k#}"] j 1 by simp
  have "add_mset (xs ! i) (add_mset (xs ! j) {#xs ! k#}) \<subseteq># mset xs"
    using assms 2 by (intro add_mset_nth_subset) auto
  then show ?thesis by simp
qed

lemma distinct_map_sorted_wrt:
  "sorted_wrt (\<lambda>x y. f x \<noteq> f y) xs \<Longrightarrow> distinct (map f xs)"
  by (induction xs) auto

lemma sorted_mset_unique:
  fixes xs ys :: "int list"
  shows "sorted xs \<Longrightarrow> sorted ys \<Longrightarrow> mset xs = mset ys \<Longrightarrow> xs = ys"
  by (metis properties_for_sort)

lemma wrapped_sum_zero_dvd:
  fixes a b c :: goint
  assumes "a + b + c = 0"
  shows "2 ^ 64 dvd (sint a + sint b + sint c)"
proof -
  have "(word_of_int (sint a + sint b + sint c) :: goint) = a + b + c" by simp
  with assms have "(word_of_int (sint a + sint b + sint c) :: goint) = 0" by simp
  then have "2 ^ LENGTH(64) dvd (sint a + sint b + sint c)"
    by (simp only: word_of_int_eq_0_iff)
  then show ?thesis by simp
qed

lemma dvd_small_zero:
  fixes k :: int
  assumes "2 ^ 64 dvd k" "- (2 ^ 64) < k" "k < 2 ^ 64"
  shows "k = 0"
  using assms by (auto elim!: dvdE)

lemma triplet_of_props:
  assumes "sorted (map sint nums)" "triplet_of nums t"
  shows "\<exists>a b c. t = [a, b, c] \<and> a + b + c = 0 \<and> sint a \<le> sint b \<and> sint b \<le> sint c
           \<and> {#a, b, c#} \<subseteq># mset nums"
proof -
  from assms(2) obtain i j k where ijk: "i < j" "j < k" "k < length nums"
    "t = [nums ! i, nums ! j, nums ! k]" "nums ! i + nums ! j + nums ! k = 0"
    unfolding triplet_of_def by blast
  have "sint (nums ! i) \<le> sint (nums ! j)"
    using sorted_nth_mono[OF assms(1), of i j] ijk by simp
  moreover have "sint (nums ! j) \<le> sint (nums ! k)"
    using sorted_nth_mono[OF assms(1), of j k] ijk by simp
  moreover have "{#nums ! i, nums ! j, nums ! k#} \<subseteq># mset nums"
    using ijk by (intro nth_triple_mset)
  ultimately show ?thesis using ijk by blast
qed

lemma tless_mset_neq:
  assumes "sorted (map sint s)" "sorted (map sint t)" "tless s t" "length s = 3" "length t = 3"
  shows "mset s \<noteq> mset t"
proof
  assume "mset s = mset t"
  then have "mset (map sint s) = mset (map sint t)" by simp
  with assms(1,2) have eq: "map sint s = map sint t" by (intro sorted_mset_unique)
  have "sint (s ! 0) = sint (t ! 0)" "sint (s ! 1) = sint (t ! 1)"
    using arg_cong[OF eq, of "\<lambda>xs. xs ! 0"] arg_cong[OF eq, of "\<lambda>xs. xs ! 1"] assms(4,5) by auto
  with assms(3) show False by (auto simp: tless_def)
qed

lemma threeSum_spec:
  "\<exists>res. threeSum nums = Inr (sort_key sint nums, res)
      \<and> (\<forall>t\<in>set res. triplet_of (sort_key sint nums) t) \<and> sorted_wrt tless res"
proof -
  have "\<exists>res. threeSum_outer (sort_key sint nums) 0 [] = Inr res
       \<and> (\<forall>t\<in>set res. triplet_of (sort_key sint nums) t) \<and> sorted_wrt tless res"
    by (rule threeSum_outer_spec) (simp_all add: sorted_sort_key)
  then show ?thesis by (auto simp: threeSum_def)
qed

lemma triplet_sum_exact:
  fixes a b c :: goint
  assumes "a + b + c = 0"
    and "- (2 ^ 62) \<le> sint a \<and> sint a \<le> 2 ^ 62"
    and "- (2 ^ 62) \<le> sint b \<and> sint b \<le> 2 ^ 62"
    and "- (2 ^ 62) \<le> sint c \<and> sint c \<le> 2 ^ 62"
  shows "sint a + sint b + sint c = 0"
proof (rule dvd_small_zero)
  show "2 ^ 64 dvd (sint a + sint b + sint c)" using assms(1) by (rule wrapped_sum_zero_dvd)
  show "- (2 ^ 64) < sint a + sint b + sint c" using assms(2-4) by simp
  show "sint a + sint b + sint c < 2 ^ 64" using assms(2-4) by simp
qed

text \<open>
  Claim C1, as the code has it. The claim says that every returned triplet sums to exactly
  zero. The code tests \<^verbatim>\<open>total == 0\<close> on a 64-bit \<^verbatim>\<open>int\<close>, so what holds
  for every input is: \<^verbatim>\<open>threeSum\<close> returns without a panic, every returned triplet
  consists of three elements of the input (taken at distinct positions), its sum computed in
  Go's wrap-around arithmetic is zero, that is, its mathematical sum is a multiple of \<open>2^64\<close>;
  and the mathematical sum is exactly zero whenever every input value lies between
  \<open>-2^62\<close> and \<open>2^62\<close>.
\<close>

theorem threeSum_triplets_sum_zero:
  "\<exists>nums' result. threeSum nums = Inr (nums', result) \<and>
     (\<forall>t\<in>set result. \<exists>a b c. t = [a, b, c] \<and> {#a, b, c#} \<subseteq># mset nums
         \<and> a + b + c = 0
         \<and> 2 ^ 64 dvd (sint a + sint b + sint c)
         \<and> ((\<forall>x\<in>set nums. - (2 ^ 62) \<le> sint x \<and> sint x \<le> 2 ^ 62)
              \<longrightarrow> sint a + sint b + sint c = 0))"
proof -
  let ?s = "sort_key sint nums"
  obtain res where res: "threeSum nums = Inr (?s, res)" "\<forall>t\<in>set res. triplet_of ?s t"
    using threeSum_spec[of nums] by blast
  have "\<exists>a b c. t = [a, b, c] \<and> {#a, b, c#} \<subseteq># mset nums
         \<and> a + b + c = 0
         \<and> 2 ^ 64 dvd (sint a + sint b + sint c)
         \<and> ((\<forall>x\<in>set nums. - (2 ^ 62) \<le> sint x \<and> sint x \<le> 2 ^ 62)
              \<longrightarrow> sint a + sint b + sint c = 0)" if "t \<in> set res" for t
  proof -
    from that res(2) have "triplet_of ?s t" by blast
    then obtain a b c where abc: "t = [a, b, c]" "a + b + c = 0" "{#a, b, c#} \<subseteq># mset ?s"
      using triplet_of_props[of ?s t] by (auto simp: sorted_sort_key)
    then have sub: "{#a, b, c#} \<subseteq># mset nums" by simp
    then have mem: "a \<in> set nums" "b \<in> set nums" "c \<in> set nums"
      by (auto dest: mset_subset_eqD)
    have "sint a + sint b + sint c = 0"
      if "\<forall>x\<in>set nums. - (2 ^ 62) \<le> sint x \<and> sint x \<le> 2 ^ 62"
      using abc(2) that mem by (intro triplet_sum_exact) blast+
    with abc sub wrapped_sum_zero_dvd[OF abc(2)] show ?thesis by blast
  qed
  with res(1) show ?thesis by blast
qed

text \<open>
  Claim C2. For every input, \<^verbatim>\<open>threeSum\<close> returns, and no two of the returned triplets
  (at different positions of the result) have the same multiset of values.
\<close>

theorem threeSum_no_duplicate_triplets:
  "\<exists>nums' result. threeSum nums = Inr (nums', result) \<and> distinct (map mset result)"
proof -
  let ?s = "sort_key sint nums"
  obtain res where res: "threeSum nums = Inr (?s, res)" "\<forall>t\<in>set res. triplet_of ?s t"
    "sorted_wrt tless res"
    using threeSum_spec[of nums] by blast
  have asc: "sorted (map sint t) \<and> length t = 3" if "t \<in> set res" for t
  proof -
    from that res(2) have "triplet_of ?s t" by blast
    then show ?thesis using triplet_of_props[of ?s t] by (auto simp: sorted_sort_key)
  qed
  have "sorted_wrt (\<lambda>s t. mset s \<noteq> mset t) res"
    using res(3)
  proof (rule sorted_wrt_mono_rel[rotated])
    fix s t assume "s \<in> set res" "t \<in> set res" "tless s t"
    then show "mset s \<noteq> mset t" using asc by (intro tless_mset_neq) auto
  qed
  then have "distinct (map mset res)" by (rule distinct_map_sorted_wrt)
  with res(1) show ?thesis by blast
qed

text \<open>
  Claim C10. \<^verbatim>\<open>threeSum\<close> sorts the caller's slice in place: after the call the slice
  holds the same multiset of values as before, in ascending order of the signed values. The
  slice is the only state the function shares with its caller.
\<close>

theorem threeSum_sorts_in_place:
  "\<exists>nums' result. threeSum nums = Inr (nums', result)
      \<and> mset nums' = mset nums \<and> sorted (map sint nums')"
  using threeSum_spec[of nums] by (auto simp: sorted_sort_key)

lemma threeSum_empty_if_no_triplet:
  assumes "\<forall>a b c. {#a, b, c#} \<subseteq># mset nums \<longrightarrow> a + b + c \<noteq> 0"
  shows "threeSum nums = Inr (sort_key sint nums, [])"
proof -
  let ?s = "sort_key sint nums"
  obtain res where res: "threeSum nums = Inr (?s, res)" "\<forall>t\<in>set res. triplet_of ?s t"
    using threeSum_spec[of nums] by blast
  have "res = []"
  proof (rule ccontr)
    assume "res \<noteq> []"
    then obtain t where "t \<in> set res" by (cases res) auto
    with res(2) have "triplet_of ?s t" by blast
    then obtain a b c where "a + b + c = 0" "{#a, b, c#} \<subseteq># mset ?s"
      using triplet_of_props[of ?s t] by (auto simp: sorted_sort_key)
    with assms show False by simp
  qed
  with res(1) show ?thesis by simp
qed

lemma no_triplet_if_short:
  assumes "length nums < 3"
  shows "\<not> {#a, b, c#} \<subseteq># mset nums"
proof
  assume "{#a, b, c#} \<subseteq># mset nums"
  then have "size {#a, b, c#} \<le> size (mset nums)" by (rule size_mset_mono)
  with assms show False by simp
qed

text \<open>
  Claim C7, as the code has it. \<^verbatim>\<open>threeSum\<close> never panics, on any input. An input
  with fewer than three elements gives the empty result. An input in which no three elements
  (at distinct positions) have a wrapped sum of zero gives the empty result; this covers
  every input whose values lie between \<open>-2^62\<close> and \<open>2^62\<close> and in which no three
  elements sum to zero.
\<close>

theorem threeSum_never_fails:
  "(\<exists>result. threeSum nums = Inr (sort_key sint nums, result))
   \<and> (length nums < 3 \<longrightarrow> threeSum nums = Inr (sort_key sint nums, []))
   \<and> ((\<forall>a b c. {#a, b, c#} \<subseteq># mset nums \<longrightarrow> a + b + c \<noteq> 0)
         \<longrightarrow> threeSum nums = Inr (sort_key sint nums, []))
   \<and> ((\<forall>x\<in>set nums. - (2 ^ 62) \<le> sint x \<and> sint x \<le> 2 ^ 62)
        \<and> (\<forall>a b c. {#a, b, c#} \<subseteq># mset nums \<longrightarrow> sint a + sint b + sint c \<noteq> 0)
         \<longrightarrow> threeSum nums = Inr (sort_key sint nums, []))"
proof (intro conjI impI)
  show "\<exists>result. threeSum nums = Inr (sort_key sint nums, result)"
    using threeSum_spec[of nums] by blast
next
  assume "length nums < 3"
  then show "threeSum nums = Inr (sort_key sint nums, [])"
    by (intro threeSum_empty_if_no_triplet) (simp add: no_triplet_if_short)
next
  assume "\<forall>a b c. {#a, b, c#} \<subseteq># mset nums \<longrightarrow> a + b + c \<noteq> 0"
  then show "threeSum nums = Inr (sort_key sint nums, [])"
    by (rule threeSum_empty_if_no_triplet)
next
  assume a: "(\<forall>x\<in>set nums. - (2 ^ 62) \<le> sint x \<and> sint x \<le> 2 ^ 62)
        \<and> (\<forall>a b c. {#a, b, c#} \<subseteq># mset nums \<longrightarrow> sint a + sint b + sint c \<noteq> 0)"
  show "threeSum nums = Inr (sort_key sint nums, [])"
  proof (rule threeSum_empty_if_no_triplet, intro allI impI)
    fix a b c :: goint assume sub: "{#a, b, c#} \<subseteq># mset nums"
    then have mem: "a \<in> set nums" "b \<in> set nums" "c \<in> set nums"
      by (auto dest: mset_subset_eqD)
    show "a + b + c \<noteq> 0"
    proof
      assume "a + b + c = 0"
      then have "sint a + sint b + sint c = 0"
        using a mem by (intro triplet_sum_exact) blast+
      with a sub show False by blast
    qed
  qed
qed

text \<open>The theorem for C1 at the input of the specification's example.\<close>

theorem threeSum_triplets_sum_zero_witness:
  "threeSum [-1, 0, 1, 2, -1, -4] = Inr ([-4, -1, -1, 0, 1, 2], [[-1, -1, 2], [-1, 0, 1]])
   \<and> (-1 :: goint) + (-1) + 2 = 0 \<and> sint (-1 :: goint) + sint (-1 :: goint) + sint (2 :: goint) = 0
   \<and> (-1 :: goint) + 0 + 1 = 0 \<and> sint (-1 :: goint) + sint (0 :: goint) + sint (1 :: goint) = 0"
proof -
  have ev: "threeSum [-1, 0, 1, 2, -1, -4] = Inr ([-4, -1, -1, 0, 1, 2], [[-1, -1, 2], [-1, 0, 1]])"
    by code_simp
  have bounds: "\<forall>x\<in>set [-1, 0, 1, 2, -1, -4 :: goint]. - (2 ^ 62) \<le> sint x \<and> sint x \<le> 2 ^ 62"
    by simp
  from threeSum_triplets_sum_zero[of "[-1, 0, 1, 2, -1, -4]"] ev bounds
  have "\<forall>t\<in>set [[-1, -1, 2], [-1, 0, 1 :: goint]]. \<exists>a b c. t = [a, b, c] \<and> a + b + c = 0
           \<and> sint a + sint b + sint c = 0"
    by fastforce
  then have "(-1 :: goint) + (-1) + 2 = 0 \<and> sint (-1 :: goint) + sint (-1 :: goint) + sint (2 :: goint) = 0
   \<and> (-1 :: goint) + 0 + 1 = 0 \<and> sint (-1 :: goint) + sint (0 :: goint) + sint (1 :: goint) = 0"
    by simp
  with ev show ?thesis by simp
qed

text \<open>
  Claim C1 as stated fails where the sum overflows: on \<^verbatim>\<open>[-2^63, -2^63, 0]\<close> the
  wrapped total is \<open>0\<close>, the triplet is returned, and its sum is \<open>-2^64\<close>.
\<close>

theorem threeSum_overflow_counterexample:
  "threeSum [-9223372036854775808, -9223372036854775808, 0]
     = Inr ([-9223372036854775808, -9223372036854775808, 0],
            [[-9223372036854775808, -9223372036854775808, 0]])
   \<and> sint (-9223372036854775808 :: goint) + sint (-9223372036854775808 :: goint) + sint (0 :: goint)
       = - 18446744073709551616"
proof -
  have "threeSum [-9223372036854775808, -9223372036854775808, 0]
     = Inr ([-9223372036854775808, -9223372036854775808, 0],
            [[-9223372036854775808, -9223372036854775808, 0]])"
    by code_simp
  then show ?thesis by simp
qed

text \<open>The theorem for C7 at a two-element input and at an input without a zero-sum triplet.\<close>

theorem threeSum_never_fails_witness:
  "length [1, 2 :: goint] < 3 \<and> threeSum [1, 2] = Inr ([1, 2], [])
   \<and> threeSum [3, 1, 2] = Inr ([1, 2, 3], [])"
proof -
  have s: "sort_key sint [1, 2 :: goint] = [1, 2]" "sort_key sint [3, 1, 2 :: goint] = [1, 2, 3]"
    by simp_all
  have b: "\<forall>x\<in>set [3, 1, 2 :: goint]. - (2 ^ 62) \<le> sint x \<and> sint x \<le> 2 ^ 62" by simp
  have pos: "\<forall>x\<in>set [3, 1, 2 :: goint]. 0 < sint x" by simp
  have n: "\<forall>a b c. {#a, b, c#} \<subseteq># mset [3, 1, 2 :: goint] \<longrightarrow> sint a + sint b + sint c \<noteq> 0"
  proof (intro allI impI)
    fix a b c :: goint assume "{#a, b, c#} \<subseteq># mset [3, 1, 2 :: goint]"
    then have "a \<in> set [3, 1, 2 :: goint]" "b \<in> set [3, 1, 2 :: goint]" "c \<in> set [3, 1, 2 :: goint]"
      by (auto dest: mset_subset_eqD)
    with pos have "0 < sint a" "0 < sint b" "0 < sint c" by blast+
    then show "sint a + sint b + sint c \<noteq> 0" by simp
  qed
  from threeSum_never_fails[of "[1, 2]"] s have 1: "threeSum [1, 2] = Inr ([1, 2], [])"
    by simp
  from threeSum_never_fails[of "[3, 1, 2]"] b n have 2: "threeSum [3, 1, 2] = Inr ([1, 2, 3], [])"
    unfolding s by blast
  from 1 2 show ?thesis by simp
qed

text \<open>
  Claim C7 as stated fails where the sum overflows: the three elements of
  \<^verbatim>\<open>[-2^63, -2^62, -2^62]\<close> sum to \<open>-2^64\<close>, not to zero, and the result is
  not empty.
\<close>

theorem threeSum_no_triplet_counterexample:
  "threeSum [-9223372036854775808, -4611686018427387904, -4611686018427387904]
     = Inr ([-9223372036854775808, -4611686018427387904, -4611686018427387904],
            [[-9223372036854775808, -4611686018427387904, -4611686018427387904]])
   \<and> sint (-9223372036854775808 :: goint) + sint (-4611686018427387904 :: goint)
       + sint (-4611686018427387904 :: goint) \<noteq> 0"
proof -
  have "threeSum [-9223372036854775808, -4611686018427387904, -4611686018427387904]
     = Inr ([-9223372036854775808, -4611686018427387904, -4611686018427387904],
            [[-9223372036854775808, -4611686018427387904, -4611686018427387904]])"
    by code_simp
  then show ?thesis by simp
qed

subsection \<open>Examples and the all-zero input\<close>

lemma sort_key_replicate: "sort_key f (replicate n x) = replicate n x"
  by (induction n) (simp_all add: insort_is_Cons)

lemma zeros_nth: "0 \<le> i \<Longrightarrow> i < int n \<Longrightarrow> replicate n (0 :: goint) ! nat i = 0"
  by simp

lemma skipLeft_zeros:
  "0 \<le> left \<Longrightarrow> left < right \<Longrightarrow> right \<le> int n \<Longrightarrow>
   threeSum_skipLeft (replicate n 0) left right = Inr (right - 1)"
proof (induction "replicate n (0 :: goint)" left right rule: threeSum_skipLeft.induct)
  case (1 left right)
  show ?case
  proof (cases "left + 1 < right")
    case False
    with "1.prems" have "left = right - 1" by simp
    with False show ?thesis by (subst threeSum_skipLeft.simps) simp
  next
    case True
    with "1.prems" have ib: "inb (replicate n (0 :: goint)) left" "inb (replicate n (0 :: goint)) (left + 1)"
      by (auto simp: inb_def)
    have eq: "replicate n (0 :: goint) ! nat left = replicate n 0 ! nat (left + 1)"
      using True "1.prems" by (simp add: zeros_nth)
    have "threeSum_skipLeft (replicate n 0) (left + 1) right = Inr (right - 1)"
      using "1.hyps"[OF True _ eq] ib True "1.prems" by simp
    then show ?thesis using True ib eq by (subst threeSum_skipLeft.simps) simp
  qed
qed

lemma outer_zeros:
  "0 < i \<Longrightarrow> threeSum_outer (replicate n 0) i result = Inr result"
proof (induction "replicate n (0 :: goint)" i result rule: threeSum_outer.induct)
  case (1 i result)
  let ?z = "replicate n (0 :: goint)"
  show ?case
  proof (cases "i < int n - 2")
    case False
    then show ?thesis by (subst threeSum_outer.simps) simp
  next
    case True
    with "1.prems" have ib: "inb ?z i" "inb ?z (i - 1)" by (auto simp: inb_def)
    have v: "?z ! nat i = 0" "?z ! nat (i - 1) = 0" using True "1.prems" by (simp_all add: zeros_nth)
    have "threeSum_outer ?z (i + 1) result = Inr result"
      using "1.hyps"(1)[OF refl _ _ refl] True ib v "1.prems" by simp
    then show ?thesis using True ib v "1.prems" by (subst threeSum_outer.simps) (simp add: Let_def)
  qed
qed

lemma threeSum_zeros:
  assumes "3 \<le> n"
  shows "threeSum (replicate n 0) = Inr (replicate n 0, [[0, 0, 0]])"
proof -
  let ?z = "replicate n (0 :: goint)"
  have ib: "inb ?z 0" "inb ?z 1" "inb ?z (int n - 1)" using assms by (auto simp: inb_def)
  have v: "?z ! nat 0 = 0" "?z ! nat 1 = 0" "?z ! nat (int n - 1) = 0"
    using assms by (simp_all add: zeros_nth)
  have sl: "threeSum_skipLeft ?z 1 (int n - 1) = Inr (int n - 2)"
    using skipLeft_zeros[of 1 "int n - 1" n] assms by simp
  have sr: "threeSum_skipRight ?z (int n - 2 + 1) (int n - 1) = Inr (int n - 1)"
    by (subst threeSum_skipRight.simps) simp
  have fin: "threeSum_scan ?z 0 (int n - 2 + 1) (int n - 1 - 1) [[0, 0, 0]] = Inr [[0, 0, 0]]"
    by (subst threeSum_scan.simps) simp
  have scan: "threeSum_scan ?z 0 1 (int n - 1) [] = Inr [[0, 0, 0]]"
    using assms ib v sl sr fin by (subst threeSum_scan.simps) simp
  have "threeSum_outer ?z 0 [] = threeSum_outer ?z (0 + 1) [[0, 0, 0]]"
    using assms ib v scan by (subst threeSum_outer.simps) (simp add: Let_def)
  also have "\<dots> = Inr [[0, 0, 0]]" by (rule outer_zeros) simp
  finally show ?thesis by (simp add: threeSum_def sort_key_replicate)
qed

text \<open>
  Claim C8. On \<^verbatim>\<open>[-1,0,1,2,-1,-4]\<close> the result holds exactly the two triplets
  \<^verbatim>\<open>[-1,-1,2]\<close> and \<^verbatim>\<open>[-1,0,1]\<close> (equality of sets, each once); on the empty
  input it is empty; on an input of \<open>n \<ge> 3\<close> zeros it is the single triplet
  \<^verbatim>\<open>[0,0,0]\<close>.
\<close>

theorem threeSum_examples:
  "(\<exists>result. threeSum [-1, 0, 1, 2, -1, -4] = Inr ([-4, -1, -1, 0, 1, 2], result)
       \<and> set result = {[-1, -1, 2], [-1, 0, 1]} \<and> length result = 2)
   \<and> threeSum [] = Inr ([], [])
   \<and> (3 \<le> n \<longrightarrow> threeSum (replicate n 0) = Inr (replicate n 0, [[0, 0, 0]]))"
proof (intro conjI impI)
  have "threeSum [-1, 0, 1, 2, -1, -4] = Inr ([-4, -1, -1, 0, 1, 2], [[-1, -1, 2], [-1, 0, 1]])"
    by code_simp
  then show "\<exists>result. threeSum [-1, 0, 1, 2, -1, -4] = Inr ([-4, -1, -1, 0, 1, 2], result)
       \<and> set result = {[-1, -1, 2], [-1, 0, 1]} \<and> length result = 2"
    by simp
  show "threeSum [] = Inr ([], [])"
    by code_simp
  show "threeSum (replicate n 0) = Inr (replicate n 0, [[0, 0, 0]])" if "3 \<le> n"
    using that by (rule threeSum_zeros)
qed

text \<open>The theorem for C8 at three and at four zeros.\<close>

theorem threeSum_examples_witness:
  "(3 :: nat) \<le> 4 \<and> threeSum [0, 0, 0, 0] = Inr ([0, 0, 0, 0], [[0, 0, 0]])
    \<and> threeSum [0, 0, 0] = Inr ([0, 0, 0], [[0, 0, 0]])"
  using threeSum_examples[of 4] threeSum_examples[of 3] by (simp add: numeral_eq_Suc)

section \<open>Removing the n-th node from the end\<close>

subsection \<open>Finite lists in the heap\<close>

lemma chain_head: "chain h p P \<Longrightarrow> p = (if P = [] then None else Some (P ! 0))"
  by (cases P) auto

lemma chain_nth:
  "chain h p P \<Longrightarrow> i < length P \<Longrightarrow>
   P ! i < length h \<and> node_next (h ! (P ! i)) = (if Suc i < length P then Some (P ! Suc i) else None)"
proof (induction P arbitrary: p i)
  case Nil
  then show ?case by simp
next
  case (Cons a P)
  show ?case
  proof (cases i)
    case 0
    from Cons.prems(1) have "chain h (node_next (h ! a)) P" "a < length h" by auto
    then show ?thesis using 0 chain_head[of h "node_next (h ! a)" P] by auto
  next
    case (Suc j)
    from Cons.prems(1) have "chain h (node_next (h ! a)) P" by simp
    from Cons.IH[OF this, of j] Cons.prems(2) Suc show ?thesis by simp
  qed
qed

lemma chain_unique: "chain h p xs \<Longrightarrow> chain h p ys \<Longrightarrow> xs = ys"
proof (induction xs arbitrary: p ys)
  case Nil
  then show ?case by (cases ys) auto
next
  case (Cons a xs)
  then show ?case by (cases ys) auto
qed

lemma chain_suffix: "chain h p (xs @ a # ys) \<Longrightarrow> chain h (Some a) (a # ys)"
  by (induction xs arbitrary: p) auto

lemma chain_head_notin:
  assumes "chain h p (a # as)"
  shows "a \<notin> set as"
proof
  assume "a \<in> set as"
  then obtain bs cs where as: "as = bs @ a # cs" by (auto simp: in_set_conv_decomp)
  from assms have 1: "chain h (node_next (h ! a)) as" by simp
  with as have "chain h (Some a) (a # cs)" by (auto dest: chain_suffix)
  then have "chain h (node_next (h ! a)) cs" by simp
  with 1 have "as = cs" by (rule chain_unique)
  with as show False by simp
qed

lemma chain_distinct: "chain h p P \<Longrightarrow> distinct P"
proof (induction P arbitrary: p)
  case Nil
  then show ?case by simp
next
  case (Cons a P)
  then show ?case using chain_head_notin[OF Cons.prems] by auto
qed

lemma chain_update: "a \<notin> set as \<Longrightarrow> chain (h[a := x]) p as = chain h p as"
  by (induction as arbitrary: p) auto

lemma chain_append: "chain h p as \<Longrightarrow> chain (h @ [x]) p as"
  by (induction as arbitrary: p) (auto simp: nth_append)

lemma chain_unlink:
  "chain h p P \<Longrightarrow> Suc m < length P \<Longrightarrow>
   chain (h[P ! m := (h ! (P ! m))\<lparr>node_next := node_next (h ! (P ! Suc m))\<rparr>]) p
     (take (Suc m) P @ drop (Suc (Suc m)) P)"
proof (induction P arbitrary: p m)
  case Nil
  then show ?case by simp
next
  case (Cons a P)
  from Cons.prems(1) have a: "p = Some a" "a < length h" "chain h (node_next (h ! a)) P" by auto
  have na: "a \<notin> set P" using chain_head_notin[OF Cons.prems(1)] .
  show ?case
  proof (cases m)
    case 0
    with Cons.prems(2) obtain b R where P: "P = b # R" by (cases P) auto
    with a(3) have b: "chain h (node_next (h ! b)) R" by simp
    from na P have "a \<notin> set R" by simp
    then have "chain (h[a := (h ! a)\<lparr>node_next := node_next (h ! b)\<rparr>]) (node_next (h ! b)) R"
      using b by (simp add: chain_update)
    then show ?thesis using 0 P a by simp
  next
    case (Suc k)
    with Cons.prems(2) have k: "Suc k < length P" by simp
    then have "P ! k \<in> set P" by simp
    with na have ne: "P ! k \<noteq> a" by auto
    from Cons.IH[OF a(3) k] ne show ?thesis using Suc a by simp
  qed
qed

subsection \<open>The two loops\<close>

lemma load_chain:
  "chain h p P \<Longrightarrow> i < length P \<Longrightarrow> load h (Some (P ! i)) = Inr (h ! (P ! i))"
  using chain_nth[of h p P i] by (simp add: load_def)

lemma removeNthFromEnd_lead_spec:
  "chain h p P \<Longrightarrow> 0 \<le> i \<Longrightarrow> i \<le> n \<Longrightarrow> nat i < length P \<Longrightarrow>
   removeNthFromEnd_lead h (Some (P ! nat i)) i n =
     Inr (if n < int (length P) then Reached (Some (P ! nat n)) else TooShort)"
proof (induction "nat (n - i)" arbitrary: i)
  case 0
  then have "i = n" by simp
  with "0.prems" show ?case by (subst removeNthFromEnd_lead.simps) simp
next
  case (Suc k)
  then have lt: "i < n" by linarith
  have ld: "load h (Some (P ! nat i)) = Inr (h ! (P ! nat i))"
    using Suc.prems by (intro load_chain)
  have nx: "node_next (h ! (P ! nat i)) = (if Suc (nat i) < length P then Some (P ! Suc (nat i)) else None)"
    using chain_nth[OF Suc.prems(1,4)] by simp
  show ?case
  proof (cases "Suc (nat i) < length P")
    case False
    with Suc.prems lt have "\<not> n < int (length P)" by linarith
    with False lt ld nx show ?thesis by (subst removeNthFromEnd_lead.simps) simp
  next
    case True
    have s: "Suc (nat i) = nat (i + 1)" using Suc.prems by simp
    have "removeNthFromEnd_lead h (Some (P ! nat (i + 1))) (i + 1) n =
     Inr (if n < int (length P) then Reached (Some (P ! nat n)) else TooShort)"
      using Suc.hyps(2) Suc.prems lt True s by (intro Suc.hyps(1)) auto
    with True lt ld nx s show ?thesis by (subst removeNthFromEnd_lead.simps) simp
  qed
qed

lemma removeNthFromEnd_walk_spec:
  "chain h p P \<Longrightarrow> k + n < length P \<Longrightarrow>
   removeNthFromEnd_walk h (Some (P ! (k + n))) (Some (P ! k)) = Some (Inr (Some (P ! (length P - 1 - n))))"
proof (induction "length P - (k + n)" arbitrary: k)
  case 0
  then show ?case by simp
next
  case (Suc d)
  have ldr: "load h (Some (P ! (k + n))) = Inr (h ! (P ! (k + n)))"
    using Suc.prems by (intro load_chain)
  have ldl: "load h (Some (P ! k)) = Inr (h ! (P ! k))"
    using Suc.prems by (intro load_chain) auto
  have nxr: "node_next (h ! (P ! (k + n))) = (if Suc (k + n) < length P then Some (P ! Suc (k + n)) else None)"
    using chain_nth[OF Suc.prems(1,2)] by simp
  show ?case
  proof (cases "Suc (k + n) < length P")
    case False
    with Suc.prems have "k = length P - 1 - n" by linarith
    with False ldr nxr show ?thesis by (subst removeNthFromEnd_walk.simps) simp
  next
    case True
    then have kl: "Suc k < length P" by simp
    have nxl: "node_next (h ! (P ! k)) = Some (P ! Suc k)"
      using chain_nth[OF Suc.prems(1), of k] kl by simp
    have "removeNthFromEnd_walk h (Some (P ! (Suc k + n))) (Some (P ! Suc k))
       = Some (Inr (Some (P ! (length P - 1 - n))))"
      using Suc.hyps(2) Suc.prems True by (intro Suc.hyps(1)) auto
    with True ldr ldl nxr nxl show ?thesis by (subst removeNthFromEnd_walk.simps) simp
  qed
qed

lemma chain_sentinel:
  assumes "chain h head as"
  shows "chain (h @ [\<lparr>node_value = 0, node_next = head\<rparr>]) (Some (length h)) (length h # as)"
  using chain_append[OF assms] by simp

lemma removeNthFromEnd_too_short:
  assumes "chain h head as" "as \<noteq> []" "int (length as) < n"
  shows "removeNthFromEnd h head n = Some (Inr (h @ [\<lparr>node_value = 0, node_next = head\<rparr>], head))"
proof -
  let ?h1 = "h @ [\<lparr>node_value = 0, node_next = head\<rparr>]"
  let ?P = "length h # as"
  have c: "chain ?h1 (Some (length h)) ?P" using assms(1) by (rule chain_sentinel)
  have hd: "head \<noteq> None" using assms(1,2) by (cases as) auto
  have "removeNthFromEnd_lead ?h1 (Some (?P ! nat 0)) 0 n =
     Inr (if n < int (length ?P) then Reached (Some (?P ! nat n)) else TooShort)"
    using c assms(3) by (intro removeNthFromEnd_lead_spec) auto
  then have "removeNthFromEnd_lead ?h1 (Some (length h)) 0 n = Inr TooShort"
    using assms(3) by simp
  then show ?thesis using hd assms(3) by (simp add: removeNthFromEnd_def new_def)
qed

lemma removeNthFromEnd_unlinks:
  assumes "chain h head as" "1 \<le> n" "n \<le> int (length as)"
  defines "m \<equiv> length as - nat n"
  shows "\<exists>h' head'. removeNthFromEnd h head n = Some (Inr (h', head'))
     \<and> chain h' head' (take m as @ drop (Suc m) as)
     \<and> length h' = Suc (length h)
     \<and> (\<forall>a<length h. node_value (h' ! a) = node_value (h ! a))"
proof -
  define h1 where "h1 = h @ [\<lparr>node_value = 0, node_next = head\<rparr>]"
  define P where "P = length h # as"
  define sp where "sp = Some (length h)"
  define rp where "rp = Some (P ! nat n)"
  define lp where "lp = P ! m"
  define vp where "vp = P ! Suc m"
  define h2 where "h2 = h1[lp := (h1 ! lp)\<lparr>node_next := node_next (h1 ! vp)\<rparr>]"
  have c: "chain h1 sp P"
    unfolding h1_def sp_def P_def using assms(1) by (rule chain_sentinel)
  have ne: "as \<noteq> []" using assms(2,3) by auto
  have hd: "head \<noteq> None" using assms(1) ne by (cases as) auto
  have m: "Suc m < length P" "m = length P - 1 - nat n" using assms(2,3) by (auto simp: m_def P_def)
  have "removeNthFromEnd_lead h1 (Some (P ! nat 0)) 0 n =
     Inr (if n < int (length P) then Reached (Some (P ! nat n)) else TooShort)"
    using c assms(2) by (intro removeNthFromEnd_lead_spec) (auto simp: P_def)
  then have lead: "removeNthFromEnd_lead h1 sp 0 n = Inr (Reached rp)"
    using assms(3) by (simp add: P_def sp_def rp_def)
  have "removeNthFromEnd_walk h1 (Some (P ! (0 + nat n))) (Some (P ! 0))
      = Some (Inr (Some (P ! (length P - 1 - nat n))))"
    using c assms(3) by (intro removeNthFromEnd_walk_spec) (auto simp: P_def)
  then have walk: "removeNthFromEnd_walk h1 rp sp = Some (Inr (Some lp))"
    using m(2) by (simp add: rp_def sp_def lp_def P_def)
  have inh: "lp < length h1" "node_next (h1 ! lp) = Some vp"
    using chain_nth[OF c, of m] m(1) by (auto simp: lp_def vp_def)
  have ldl: "load h1 (Some lp) = Inr (h1 ! lp)"
    unfolding lp_def using c m(1) by (intro load_chain) auto
  have ldv: "load h1 (Some vp) = Inr (h1 ! vp)"
    unfolding vp_def using c m(1) by (intro load_chain)
  have st: "store_next h1 (Some lp) (node_next (h1 ! vp)) = Inr h2"
    using inh(1) by (simp add: store_next_def h2_def)
  have len: "length h2 = Suc (length h)"
    by (simp add: h2_def h1_def)
  have ldc: "load h2 sp = Inr (h2 ! length h)"
    using len by (simp add: load_def sp_def)
  have run: "removeNthFromEnd h head n = Some (Inr (h2, node_next (h2 ! length h)))"
    unfolding removeNthFromEnd_def new_def h1_def[symmetric] sp_def[symmetric]
    using hd assms(2) lead walk ldl inh(2) ldv st ldc by auto
  have "chain h2 sp (take (Suc m) P @ drop (Suc (Suc m)) P)"
    unfolding h2_def lp_def vp_def using c m(1) by (rule chain_unlink)
  then have res: "chain h2 (node_next (h2 ! length h)) (take m as @ drop (Suc m) as)"
    by (simp add: P_def sp_def)
  have vals: "node_value (h2 ! a) = node_value (h ! a)" if "a < length h" for a
  proof (cases "a = lp")
    case True
    with that inh(1) show ?thesis by (simp add: h2_def h1_def nth_append)
  next
    case False
    with that show ?thesis by (simp add: h2_def h1_def nth_append)
  qed
  from run res vals len show ?thesis by auto
qed

subsection \<open>Properties of \<^verbatim>\<open>removeNthFromEnd\<close>\<close>

lemma chain_addresses: "chain h p as \<Longrightarrow> a \<in> set as \<Longrightarrow> a < length h"
  using chain_nth[of h p as] by (auto simp: in_set_conv_nth)

lemma chain_heap5: "chain heap5 (Some 0) [0, 1, 2, 3, 4]"
  by (simp add: heap5_def)

lemma removeNthFromEnd_chain:
  assumes "chain h head as"
  shows "\<exists>h' head'. removeNthFromEnd h head n = Some (Inr (h', head'))
     \<and> chain h' head' (remove_nth_from_end as n)
     \<and> (\<forall>a\<in>set as. node_value (h' ! a) = node_value (h ! a))"
proof -
  consider "head = None \<or> n \<le> 0" | "head \<noteq> None" "int (length as) < n"
    | "1 \<le> n" "n \<le> int (length as)" by linarith
  then show ?thesis
  proof cases
    case 1
    then have "removeNthFromEnd h head n = Some (Inr (h, head))"
      by (simp add: removeNthFromEnd_def)
    moreover have "remove_nth_from_end as n = as"
      using 1 assms by (cases as) (auto simp: remove_nth_from_end_def)
    ultimately show ?thesis using assms by simp
  next
    case 2
    with assms have ne: "as \<noteq> []" by (cases as) auto
    let ?h1 = "h @ [\<lparr>node_value = 0, node_next = head\<rparr>]"
    have "removeNthFromEnd h head n = Some (Inr (?h1, head))"
      using assms ne 2(2) by (rule removeNthFromEnd_too_short)
    moreover have "remove_nth_from_end as n = as"
      using 2 by (simp add: remove_nth_from_end_def)
    moreover have "chain ?h1 head as" using assms by (rule chain_append)
    moreover have "\<forall>a\<in>set as. node_value (?h1 ! a) = node_value (h ! a)"
      using chain_addresses[OF assms] by (simp add: nth_append)
    ultimately show ?thesis by simp
  next
    case 3
    from removeNthFromEnd_unlinks[OF assms 3]
    obtain h' head' where r: "removeNthFromEnd h head n = Some (Inr (h', head'))"
      "chain h' head' (take (length as - nat n) as @ drop (Suc (length as - nat n)) as)"
      "\<forall>a<length h. node_value (h' ! a) = node_value (h ! a)"
      by blast
    have "\<forall>a\<in>set as. node_value (h' ! a) = node_value (h ! a)"
      using r(3) chain_addresses[OF assms] by simp
    with r(1,2) 3 show ?thesis by (auto simp: remove_nth_from_end_def)
  qed
qed

lemma set_remove_nth_from_end: "set (remove_nth_from_end xs n) \<subseteq> set xs"
  by (auto simp: remove_nth_from_end_def dest: in_set_takeD in_set_dropD)

lemma list_values_remove:
  assumes "\<forall>a\<in>set as. node_value (h' ! a) = node_value (h ! a)"
  shows "list_values h' (remove_nth_from_end as n) = remove_nth_from_end (list_values h as) n"
proof -
  have "list_values h' (remove_nth_from_end as n) = list_values h (remove_nth_from_end as n)"
    using assms set_remove_nth_from_end[of as n] by (auto simp: list_values_def)
  also have "\<dots> = remove_nth_from_end (list_values h as) n"
    by (simp add: list_values_def remove_nth_from_end_def take_map drop_map)
  finally show ?thesis .
qed

text \<open>
  Claim C3. For a finite acyclic list of length \<open>L\<close> at \<open>head\<close> (its nodes at the addresses
  \<open>as\<close>) and \<open>1 \<le> n \<le> L\<close>, \<^verbatim>\<open>removeNthFromEnd\<close> returns the list of the same nodes
  in the same order without the \<open>n\<close>-th node from the tail, that is without position
  \<open>L - n\<close>, and every node keeps its value. With \<open>n = L\<close> the original head is removed, and
  a single node with \<open>n = 1\<close> leaves the empty list. On \<^verbatim>\<open>1 -> 2 -> 3 -> 4 -> 5\<close>,
  \<open>n = 2\<close> gives \<^verbatim>\<open>1 -> 2 -> 3 -> 5\<close> and \<open>n = 5\<close> gives \<^verbatim>\<open>2 -> 3 -> 4 -> 5\<close>.
\<close>

theorem removeNthFromEnd_removes:
  "(chain h head as \<and> 1 \<le> n \<and> n \<le> int (length as) \<longrightarrow>
      (\<exists>h' head'. removeNthFromEnd h head n = Some (Inr (h', head'))
         \<and> chain h' head' (take (length as - nat n) as @ drop (Suc (length as - nat n)) as)
         \<and> (\<forall>a\<in>set as. node_value (h' ! a) = node_value (h ! a))
         \<and> (n = int (length as) \<longrightarrow> chain h' head' (tl as))
         \<and> (length as = 1 \<longrightarrow> head' = None)))
   \<and> chain heap5 (Some 0) [0, 1, 2, 3, 4] \<and> list_values heap5 [0, 1, 2, 3, 4] = [1, 2, 3, 4, 5]
   \<and> (\<exists>h' head'. removeNthFromEnd heap5 (Some 0) 2 = Some (Inr (h', head'))
         \<and> chain h' head' [0, 1, 2, 4] \<and> list_values h' [0, 1, 2, 4] = [1, 2, 3, 5])
   \<and> (\<exists>h' head'. removeNthFromEnd heap5 (Some 0) 5 = Some (Inr (h', head'))
         \<and> chain h' head' [1, 2, 3, 4] \<and> list_values h' [1, 2, 3, 4] = [2, 3, 4, 5])"
proof (intro conjI impI)
  assume a: "chain h head as \<and> 1 \<le> n \<and> n \<le> int (length as)"
  let ?as' = "take (length as - nat n) as @ drop (Suc (length as - nat n)) as"
  from a have as': "remove_nth_from_end as n = ?as'"
    by (simp add: remove_nth_from_end_def)
  from a removeNthFromEnd_chain[of h head as n]
  obtain h' head' where r: "removeNthFromEnd h head n = Some (Inr (h', head'))"
    "chain h' head' ?as'" "\<forall>a\<in>set as. node_value (h' ! a) = node_value (h ! a)"
    unfolding as' by blast
  have "chain h' head' (tl as)" if "n = int (length as)"
    using r(2) that by (simp add: drop_Suc)
  moreover have "head' = None" if "length as = 1"
  proof -
    from that a have "?as' = []" by auto
    with r(2) show ?thesis by simp
  qed
  ultimately show "\<exists>h' head'. removeNthFromEnd h head n = Some (Inr (h', head'))
         \<and> chain h' head' ?as'
         \<and> (\<forall>a\<in>set as. node_value (h' ! a) = node_value (h ! a))
         \<and> (n = int (length as) \<longrightarrow> chain h' head' (tl as))
         \<and> (length as = 1 \<longrightarrow> head' = None)"
    using r by blast
next
  show "chain heap5 (Some 0) [0, 1, 2, 3, 4]" by (rule chain_heap5)
  show "list_values heap5 [0, 1, 2, 3, 4] = [1, 2, 3, 4, 5]"
    by (simp add: heap5_def list_values_def)
next
  from removeNthFromEnd_chain[OF chain_heap5, of 2]
  obtain h' head' where r: "removeNthFromEnd heap5 (Some 0) 2 = Some (Inr (h', head'))"
    "chain h' head' (remove_nth_from_end [0, 1, 2, 3, 4] 2)"
    "\<forall>a\<in>set [0, 1, 2, 3, 4]. node_value (h' ! a) = node_value (heap5 ! a)"
    by blast
  have "list_values h' (remove_nth_from_end [0, 1, 2, 3, 4] 2)
      = remove_nth_from_end (list_values heap5 [0, 1, 2, 3, 4]) 2"
    using r(3) by (rule list_values_remove)
  then have "list_values h' [0, 1, 2, 4] = [1, 2, 3, 5]"
    by (simp add: remove_nth_from_end_def list_values_def heap5_def)
  moreover have "chain h' head' [0, 1, 2, 4]"
    using r(2) by (simp add: remove_nth_from_end_def)
  ultimately show "\<exists>h' head'. removeNthFromEnd heap5 (Some 0) 2 = Some (Inr (h', head'))
         \<and> chain h' head' [0, 1, 2, 4] \<and> list_values h' [0, 1, 2, 4] = [1, 2, 3, 5]"
    using r(1) by blast
next
  from removeNthFromEnd_chain[OF chain_heap5, of 5]
  obtain h' head' where r: "removeNthFromEnd heap5 (Some 0) 5 = Some (Inr (h', head'))"
    "chain h' head' (remove_nth_from_end [0, 1, 2, 3, 4] 5)"
    "\<forall>a\<in>set [0, 1, 2, 3, 4]. node_value (h' ! a) = node_value (heap5 ! a)"
    by blast
  have "list_values h' (remove_nth_from_end [0, 1, 2, 3, 4] 5)
      = remove_nth_from_end (list_values heap5 [0, 1, 2, 3, 4]) 5"
    using r(3) by (rule list_values_remove)
  then have "list_values h' [1, 2, 3, 4] = [2, 3, 4, 5]"
    by (simp add: remove_nth_from_end_def list_values_def heap5_def)
  moreover have "chain h' head' [1, 2, 3, 4]"
    using r(2) by (simp add: remove_nth_from_end_def)
  ultimately show "\<exists>h' head'. removeNthFromEnd heap5 (Some 0) 5 = Some (Inr (h', head'))
         \<and> chain h' head' [1, 2, 3, 4] \<and> list_values h' [1, 2, 3, 4] = [2, 3, 4, 5]"
    using r(1) by blast
qed

text \<open>
  The theorem for C3 on \<^verbatim>\<open>1 -> 2 -> 3 -> 4 -> 5\<close> with \<open>n = 2\<close> and \<open>n = 5\<close>, and
  on a single node with \<open>n = 1\<close>.
\<close>

theorem removeNthFromEnd_removes_witness:
  "chain heap5 (Some 0) [0, 1, 2, 3, 4] \<and> (1 :: int) \<le> 2 \<and> (2 :: int) \<le> int (length [0, 1, 2, 3, 4 :: nat])
   \<and> (\<exists>h' head'. removeNthFromEnd heap5 (Some 0) 2 = Some (Inr (h', head'))
          \<and> chain h' head' [0, 1, 2, 4])
   \<and> (\<exists>h' head'. removeNthFromEnd heap5 (Some 0) 5 = Some (Inr (h', head'))
          \<and> chain h' head' [1, 2, 3, 4])
   \<and> (\<exists>h'. removeNthFromEnd [\<lparr>node_value = 7, node_next = None\<rparr>] (Some 0) 1 = Some (Inr (h', None)))"
proof -
  have c: "chain heap5 (Some 0) [0, 1, 2, 3, 4]" by (simp add: heap5_def)
  have c1: "chain [\<lparr>node_value = 7, node_next = None\<rparr>] (Some 0) [0]" by simp
  from removeNthFromEnd_removes[of heap5 "Some 0" "[0, 1, 2, 3, 4]" 2] c
  have 1: "\<exists>h' head'. removeNthFromEnd heap5 (Some 0) 2 = Some (Inr (h', head'))
          \<and> chain h' head' [0, 1, 2, 4]"
    by auto
  from removeNthFromEnd_removes[of heap5 "Some 0" "[0, 1, 2, 3, 4]" 5] c
  have 2: "\<exists>h' head'. removeNthFromEnd heap5 (Some 0) 5 = Some (Inr (h', head'))
          \<and> chain h' head' [1, 2, 3, 4]"
    by auto
  from removeNthFromEnd_removes[of "[\<lparr>node_value = 7, node_next = None\<rparr>]" "Some 0" "[0]" 1] c1
  have 3: "\<exists>h'. removeNthFromEnd [\<lparr>node_value = 7, node_next = None\<rparr>] (Some 0) 1 = Some (Inr (h', None))"
    by auto
  from c 1 2 3 show ?thesis by simp
qed

text \<open>
  Claim C4. With \<^verbatim>\<open>head == nil\<close> or \<open>n \<le> 0\<close> the call returns \<open>head\<close> and leaves the
  heap as it is, whatever the heap holds. With a finite list of length \<open>L < n\<close> it returns
  \<open>head\<close>, every cell of the caller's heap is unchanged (the heap has only grown by the
  sentinel), and the list at \<open>head\<close> still consists of the same nodes. No case panics.
\<close>

theorem removeNthFromEnd_noop:
  "(head = None \<or> n \<le> 0 \<longrightarrow> removeNthFromEnd h head n = Some (Inr (h, head)))
   \<and> (chain h head as \<and> int (length as) < n \<longrightarrow>
        (\<exists>h'. removeNthFromEnd h head n = Some (Inr (h', head))
           \<and> take (length h) h' = h \<and> chain h' head as \<and> (\<forall>a\<in>set as. h' ! a = h ! a)))"
proof (intro conjI impI)
  assume "head = None \<or> n \<le> 0"
  then show "removeNthFromEnd h head n = Some (Inr (h, head))"
    by (simp add: removeNthFromEnd_def)
next
  assume a: "chain h head as \<and> int (length as) < n"
  show "\<exists>h'. removeNthFromEnd h head n = Some (Inr (h', head))
           \<and> take (length h) h' = h \<and> chain h' head as \<and> (\<forall>a\<in>set as. h' ! a = h ! a)"
  proof (cases "as = []")
    case True
    with a have "head = None" by simp
    then have "removeNthFromEnd h head n = Some (Inr (h, head))"
      by (simp add: removeNthFromEnd_def)
    with a show ?thesis by simp
  next
    case False
    let ?h1 = "h @ [\<lparr>node_value = 0, node_next = head\<rparr>]"
    have "removeNthFromEnd h head n = Some (Inr (?h1, head))"
      using a False by (intro removeNthFromEnd_too_short) auto
    moreover have "chain ?h1 head as" using a by (intro chain_append) simp
    moreover have "\<forall>a\<in>set as. ?h1 ! a = h ! a"
      using chain_addresses[of h head as] a by (simp add: nth_append)
    ultimately show ?thesis by simp
  qed
qed

text \<open>The theorem for C4 with a \<^verbatim>\<open>nil\<close> head, with \<open>n = 0\<close> and with \<open>n = 6\<close> on five nodes.\<close>

theorem removeNthFromEnd_noop_witness:
  "removeNthFromEnd heap5 None 3 = Some (Inr (heap5, None))
   \<and> removeNthFromEnd heap5 (Some 0) 0 = Some (Inr (heap5, Some 0))
   \<and> chain heap5 (Some 0) [0, 1, 2, 3, 4] \<and> int (length [0, 1, 2, 3, 4 :: nat]) < 6
   \<and> (\<exists>h'. removeNthFromEnd heap5 (Some 0) 6 = Some (Inr (h', Some 0))
          \<and> take 5 h' = heap5 \<and> chain h' (Some 0) [0, 1, 2, 3, 4])"
proof -
  have c: "chain heap5 (Some 0) [0, 1, 2, 3, 4]" by (simp add: heap5_def)
  have l: "length heap5 = 5" by (simp add: heap5_def)
  from removeNthFromEnd_noop[of None 3 heap5]
  have 1: "removeNthFromEnd heap5 None 3 = Some (Inr (heap5, None))" by simp
  from removeNthFromEnd_noop[of "Some 0" 0 heap5]
  have 2: "removeNthFromEnd heap5 (Some 0) 0 = Some (Inr (heap5, Some 0))" by simp
  from removeNthFromEnd_noop[of "Some 0" 6 heap5 "[0, 1, 2, 3, 4]"] c l
  have 3: "\<exists>h'. removeNthFromEnd heap5 (Some 0) 6 = Some (Inr (h', Some 0))
          \<and> take 5 h' = heap5 \<and> chain h' (Some 0) [0, 1, 2, 3, 4]"
    by auto
  from c 1 2 3 show ?thesis by simp
qed

text \<open>
  Claim C6. On a finite acyclic list and for every \<open>n\<close>, \<^verbatim>\<open>removeNthFromEnd\<close> ends
  (the result is not \<open>None\<close>), dereferences no \<^verbatim>\<open>nil\<close> pointer (the result is no
  \<open>Inl\<close>), and the list it returns is finite and \<^verbatim>\<open>nil\<close>-terminated, visits no node
  twice, and consists of nodes of the input list.
\<close>

theorem removeNthFromEnd_safe:
  "chain h head as \<Longrightarrow>
   \<exists>h' head' as'. removeNthFromEnd h head n = Some (Inr (h', head'))
      \<and> chain h' head' as' \<and> distinct as' \<and> set as' \<subseteq> set as"
proof -
  assume "chain h head as"
  from removeNthFromEnd_chain[OF this, of n]
  obtain h' head' where r: "removeNthFromEnd h head n = Some (Inr (h', head'))"
    "chain h' head' (remove_nth_from_end as n)"
    by blast
  from r(2) have "distinct (remove_nth_from_end as n)" by (rule chain_distinct)
  with r set_remove_nth_from_end[of as n] show ?thesis by blast
qed

text \<open>The theorem for C6 on \<^verbatim>\<open>1 -> 2 -> 3 -> 4 -> 5\<close> with \<open>n = 1\<close>.\<close>

theorem removeNthFromEnd_safe_witness:
  "chain heap5 (Some 0) [0, 1, 2, 3, 4]
   \<and> (\<exists>h' head' as'. removeNthFromEnd heap5 (Some 0) 1 = Some (Inr (h', head'))
      \<and> chain h' head' as' \<and> distinct as' \<and> set as' \<subseteq> set [0, 1, 2, 3, 4])"
proof -
  have c: "chain heap5 (Some 0) [0, 1, 2, 3, 4]" by (simp add: heap5_def)
  from removeNthFromEnd_safe[OF c, of 1] c show ?thesis by simp
qed


subsection \<open>A cyclic list\<close>

text \<open>
  The list has to be acyclic: on a node that is its own successor the second loop never
  ends, and the call does not return.
\<close>

lemma removeNthFromEnd_walk_cyclic:
  assumes "removeNthFromEnd_walk h r l = Some res"
  shows "\<not> (h = cycle1 \<and> r = Some 0 \<and> (l = Some 0 \<or> l = Some 1))"
proof (rule removeNthFromEnd_walk.raw_induct[where
        P = "\<lambda>h r l res. \<not> (h = cycle1 \<and> r = Some 0 \<and> (l = Some 0 \<or> l = Some 1))", OF _ assms])
  fix walk h r l res
  assume IH: "\<And>h r l res. walk h r l = Some res \<Longrightarrow>
              \<not> (h = cycle1 \<and> r = Some 0 \<and> (l = Some 0 \<or> l = Some 1))"
    and step: "(case load h r of Inl e \<Rightarrow> Some (Inl e)
        | Inr rn \<Rightarrow>
            if node_next rn \<noteq> None
            then case load h l of Inl e \<Rightarrow> Some (Inl e)
                 | Inr ln \<Rightarrow> walk h (node_next rn) (node_next ln)
            else Some (Inr l)) = Some res"
  show "\<not> (h = cycle1 \<and> r = Some 0 \<and> (l = Some 0 \<or> l = Some 1))"
  proof
    assume a: "h = cycle1 \<and> r = Some 0 \<and> (l = Some 0 \<or> l = Some 1)"
    then have "load h r = Inr \<lparr>node_value = 1, node_next = Some 0\<rparr>"
      by (simp add: load_def cycle1_def)
    moreover from a obtain ln where "load h l = Inr ln" "node_next ln = Some 0"
      by (auto simp: load_def cycle1_def)
    ultimately have "walk cycle1 (Some 0) (Some 0) = Some res"
      using step a by simp
    with IH show False by blast
  qed
qed

lemma removeNthFromEnd_cyclic:
  "removeNthFromEnd [\<lparr>node_value = 1, node_next = Some 0\<rparr>] (Some 0) 1 = None"
proof -
  have w: "removeNthFromEnd_walk cycle1 (Some 0) (Some 1) = None"
    using removeNthFromEnd_walk_cyclic[of cycle1 "Some 0" "Some 1"]
    by (cases "removeNthFromEnd_walk cycle1 (Some 0) (Some 1)") auto
  have l: "removeNthFromEnd_lead cycle1 (Some 1) 0 1 = Inr (Reached (Some 0))"
    by (simp add: removeNthFromEnd_lead.simps load_def cycle1_def)
  show ?thesis
    using l w by (simp add: removeNthFromEnd_def new_def cycle1_def)
qed

section \<open>Running an operation again\<close>

lemma threeSum_sorted_input:
  assumes "threeSum nums = Inr (nums', result)"
  shows "threeSum nums' = Inr (nums', result)"
proof -
  from assms have n: "nums' = sort_key sint nums"
    by (auto simp: threeSum_def Let_def split: sum.splits)
  have "sort_key sint nums' = nums'"
    unfolding n by (intro sort_key_id_if_sorted sorted_sort_key)
  with assms n show ?thesis by (simp add: threeSum_def)
qed

text \<open>
  Claim C9. Two runs on equal inputs give equal results. For \<^verbatim>\<open>threeSum\<close> and
  \<^verbatim>\<open>isPalindrome\<close> the input is the slice or the string; \<^verbatim>\<open>threeSum\<close> moreover
  returns the same triplets when it is run again on the slice it has sorted. For
  \<^verbatim>\<open>removeNthFromEnd\<close> a copy of the list is another list, possibly at other addresses
  of another heap, holding the same values in the same order: both runs return, and the
  returned lists hold the same values in the same order.
\<close>

theorem rerun_same_result:
  "(nums1 = nums2 \<longrightarrow> threeSum nums1 = threeSum nums2)
   \<and> (threeSum nums = Inr (nums', result) \<longrightarrow> threeSum nums' = Inr (nums', result))
   \<and> (s1 = s2 \<longrightarrow> isPalindrome s1 = isPalindrome s2)
   \<and> (chain h1 p1 as1 \<and> chain h2 p2 as2 \<and> list_values h1 as1 = list_values h2 as2 \<longrightarrow>
        (\<exists>h1' p1' as1' h2' p2' as2'.
            removeNthFromEnd h1 p1 n = Some (Inr (h1', p1')) \<and> chain h1' p1' as1'
          \<and> removeNthFromEnd h2 p2 n = Some (Inr (h2', p2')) \<and> chain h2' p2' as2'
          \<and> list_values h1' as1' = list_values h2' as2'))"
proof (intro conjI impI)
  show "threeSum nums1 = threeSum nums2" if "nums1 = nums2" using that by simp
  show "threeSum nums' = Inr (nums', result)" if "threeSum nums = Inr (nums', result)"
    using that by (rule threeSum_sorted_input)
  show "isPalindrome s1 = isPalindrome s2" if "s1 = s2" using that by simp
next
  assume a: "chain h1 p1 as1 \<and> chain h2 p2 as2 \<and> list_values h1 as1 = list_values h2 as2"
  from a removeNthFromEnd_chain[of h1 p1 as1 n]
  obtain h1' p1' where 1: "removeNthFromEnd h1 p1 n = Some (Inr (h1', p1'))"
    "chain h1' p1' (remove_nth_from_end as1 n)"
    "\<forall>a\<in>set as1. node_value (h1' ! a) = node_value (h1 ! a)"
    by blast
  from a removeNthFromEnd_chain[of h2 p2 as2 n]
  obtain h2' p2' where 2: "removeNthFromEnd h2 p2 n = Some (Inr (h2', p2'))"
    "chain h2' p2' (remove_nth_from_end as2 n)"
    "\<forall>a\<in>set as2. node_value (h2' ! a) = node_value (h2 ! a)"
    by blast
  have "list_values h1' (remove_nth_from_end as1 n) = list_values h2' (remove_nth_from_end as2 n)"
    using a list_values_remove[OF 1(3), of n] list_values_remove[OF 2(3), of n] by simp
  with 1 2 show "\<exists>h1' p1' as1' h2' p2' as2'.
            removeNthFromEnd h1 p1 n = Some (Inr (h1', p1')) \<and> chain h1' p1' as1'
          \<and> removeNthFromEnd h2 p2 n = Some (Inr (h2', p2')) \<and> chain h2' p2' as2'
          \<and> list_values h1' as1' = list_values h2' as2'"
    by blast
qed

text \<open>
  The theorem for C9: the example input of \<^verbatim>\<open>threeSum\<close> and its sorted form, a string,
  and the list \<^verbatim>\<open>1 -> 2 -> 3\<close> laid out in two heaps in opposite address order.
\<close>

theorem rerun_same_result_witness:
  "threeSum [0, 0, 0] = threeSum [0, 0, 0]
   \<and> threeSum [-1, 0, 1, 2, -1, -4] = Inr ([-4, -1, -1, 0, 1, 2], [[-1, -1, 2], [-1, 0, 1]])
   \<and> threeSum [-4, -1, -1, 0, 1, 2] = Inr ([-4, -1, -1, 0, 1, 2], [[-1, -1, 2], [-1, 0, 1]])
   \<and> isPalindrome ''abab'' = isPalindrome ''abab''
   \<and> chain [\<lparr>node_value = 1, node_next = Some 1\<rparr>, \<lparr>node_value = 2, node_next = Some 2\<rparr>,
             \<lparr>node_value = 3, node_next = None\<rparr>] (Some 0) [0, 1, 2]
   \<and> chain [\<lparr>node_value = 3, node_next = None\<rparr>, \<lparr>node_value = 2, node_next = Some 0\<rparr>,
             \<lparr>node_value = 1, node_next = Some 1\<rparr>] (Some 2) [2, 1, 0]
   \<and> (\<exists>h1' p1' as1' h2' p2' as2'.
          removeNthFromEnd [\<lparr>node_value = 1, node_next = Some 1\<rparr>, \<lparr>node_value = 2, node_next = Some 2\<rparr>,
             \<lparr>node_value = 3, node_next = None\<rparr>] (Some 0) 2 = Some (Inr (h1', p1'))
        \<and> chain h1' p1' as1'
        \<and> removeNthFromEnd [\<lparr>node_value = 3, node_next = None\<rparr>, \<lparr>node_value = 2, node_next = Some 0\<rparr>,
             \<lparr>node_value = 1, node_next = Some 1\<rparr>] (Some 2) 2 = Some (Inr (h2', p2'))
        \<and> chain h2' p2' as2'
        \<and> list_values h1' as1' = list_values h2' as2')"
proof -
  let ?hA = "[\<lparr>node_value = 1, node_next = Some 1\<rparr>, \<lparr>node_value = 2, node_next = Some 2\<rparr>,
             \<lparr>node_value = 3, node_next = None\<rparr>]"
  let ?hB = "[\<lparr>node_value = 3, node_next = None\<rparr>, \<lparr>node_value = 2, node_next = Some 0\<rparr>,
             \<lparr>node_value = 1, node_next = Some 1\<rparr>]"
  have ev: "threeSum [-1, 0, 1, 2, -1, -4] = Inr ([-4, -1, -1, 0, 1, 2], [[-1, -1, 2], [-1, 0, 1]])"
    by code_simp
  have cA: "chain ?hA (Some 0) [0, 1, 2]" by simp
  have cB: "chain ?hB (Some 2) [2, 1, 0]" by simp
  have vs: "list_values ?hA [0, 1, 2] = list_values ?hB [2, 1, 0]" by (simp add: list_values_def)
  note r = rerun_same_result[where ?nums1.0 = "[0, 0, 0]" and ?nums2.0 = "[0, 0, 0]"
      and nums = "[-1, 0, 1, 2, -1, -4]" and nums' = "[-4, -1, -1, 0, 1, 2]"
      and result = "[[-1, -1, 2], [-1, 0, 1]]" and ?s1.0 = "''abab''" and ?s2.0 = "''abab''"
      and ?h1.0 = ?hA and ?p1.0 = "Some 0" and ?as1.0 = "[0, 1, 2]"
      and ?h2.0 = ?hB and ?p2.0 = "Some 2" and ?as2.0 = "[2, 1, 0]" and n = 2]
  from r ev have 2: "threeSum [-4, -1, -1, 0, 1, 2] = Inr ([-4, -1, -1, 0, 1, 2], [[-1, -1, 2], [-1, 0, 1]])"
    by blast
  from r cA cB vs have 3: "\<exists>h1' p1' as1' h2' p2' as2'.
          removeNthFromEnd ?hA (Some 0) 2 = Some (Inr (h1', p1'))
        \<and> chain h1' p1' as1'
        \<and> removeNthFromEnd ?hB (Some 2) 2 = Some (Inr (h2', p2'))
        \<and> chain h2' p2' as2'
        \<and> list_values h1' as1' = list_values h2' as2'"
    by blast
  from ev 2 cA cB 3 show ?thesis by blast
qed


end
